theory Spec2Isabelle
  imports Complex_Main
begin

section \<open>Chat history database (src/database.py)\<close>

text \<open>
  The SQLite file holds two tables. A row of \<open>conversations\<close> is
  (conversation_id, created_at, updated_at, metadata); a row of \<open>messages\<close> is
  (message_id, conversation_id, role, content, created_at). Both tables are kept as
  lists in insertion order. Timestamps are the strings of
  \<^verbatim>\<open>datetime.now().isoformat()\<close>, which SQLite compares as text; they are modelled
  by natural numbers, and the reading of the clock is an argument of every operation
  that takes one. The identifiers drawn with \<^verbatim>\<open>uuid.uuid4()\<close> are arguments too.
\<close>

type_synonym timestamp = nat

record conversation_row =
  conversation_id :: string
  created_at :: timestamp
  updated_at :: timestamp
  metadata :: string

record message_row =
  message_id :: string
  msg_conversation_id :: string
  role :: string
  content :: string
  msg_created_at :: timestamp

record tables =
  conversations :: "conversation_row list"
  messages :: "message_row list"

text \<open>
  Every method opens the file with \<^verbatim>\<open>sqlite3.connect\<close> inside \<^verbatim>\<open>try\<close>; whatever the
  driver raises is re-raised as \<^verbatim>\<open>RuntimeError\<close>. The connection's context manager
  commits when the block ends normally and rolls back when it raises, so a method either
  takes effect as a whole or leaves the tables as they were.
\<close>

datatype storage = Unavailable | Available tables

datatype error = RuntimeError | ValueError | KeyError | AssertionError | ServiceError

datatype message = HumanMessage string | AIMessage string | SystemMessage string

definition conversation_known :: "string \<Rightarrow> tables \<Rightarrow> bool" where
  \<comment> \<open>\<^verbatim>\<open>SELECT 1 FROM conversations WHERE conversation_id = ?\<close>, then \<^verbatim>\<open>fetchone()\<close>\<close>
  "conversation_known cid t = (cid \<in> set (map conversation_id (conversations t)))"

definition delete_conversation :: "string \<Rightarrow> storage \<Rightarrow> (error + bool) \<times> storage" where
  "delete_conversation cid st =
     (case st of
        Unavailable \<Rightarrow> (Inl RuntimeError, st)
      | Available t \<Rightarrow>
          if \<not> conversation_known cid t then (Inr False, st)
          else (Inr True,
                Available (t\<lparr>messages := filter (\<lambda>m. msg_conversation_id m \<noteq> cid) (messages t),
                              conversations := filter (\<lambda>c. conversation_id c \<noteq> cid) (conversations t)\<rparr>)))"

definition conversation_exists :: "string \<Rightarrow> storage \<Rightarrow> error + bool" where
  "conversation_exists cid st =
     (case st of
        Unavailable \<Rightarrow> Inl RuntimeError
      | Available t \<Rightarrow> Inr (conversation_known cid t))"

definition create_new_conversation :: "string \<Rightarrow> timestamp \<Rightarrow> storage \<Rightarrow> (error + string) \<times> storage" where
  \<comment> \<open>\<open>cid\<close> is the fresh uuid4; a primary key already present raises IntegrityError\<close>
  "create_new_conversation cid now st =
     (case st of
        Unavailable \<Rightarrow> (Inl RuntimeError, st)
      | Available t \<Rightarrow>
          if conversation_known cid t then (Inl RuntimeError, st)
          else (Inr cid,
                Available (t\<lparr>conversations := conversations t @
                  [\<lparr>conversation_id = cid, created_at = now, updated_at = now, metadata = ''{}''\<rparr>]\<rparr>)))"

definition save_message ::
  "string \<Rightarrow> string \<Rightarrow> string \<Rightarrow> string \<Rightarrow> timestamp \<Rightarrow> storage \<Rightarrow> (error + unit) \<times> storage" where
  \<comment> \<open>\<open>mid\<close> is the uuid4 of the message, \<open>now\<close> the clock reading\<close>
  "save_message cid r c mid now st =
     (if r \<notin> set [''human'', ''ai'', ''system''] then (Inl RuntimeError, st)
      else case st of
        Unavailable \<Rightarrow> (Inl RuntimeError, st)
      | Available t \<Rightarrow>
          let convs =
                (if \<not> conversation_known cid t
                 then conversations t @
                   [\<lparr>conversation_id = cid, created_at = now, updated_at = now, metadata = ''{}''\<rparr>]
                 else map (\<lambda>c. if conversation_id c = cid then c\<lparr>updated_at := now\<rparr> else c)
                        (conversations t))
          in if mid \<in> set (map message_id (messages t)) then (Inl RuntimeError, st)
             else (Inr (),
                   Available (t\<lparr>conversations := convs,
                                 messages := messages t @
                                   [\<lparr>message_id = mid, msg_conversation_id = cid, role = r,
                                     content = c, msg_created_at = now\<rparr>]\<rparr>)))"

definition to_message :: "message_row \<Rightarrow> message option" where
  "to_message m =
     (if role m = ''human'' then Some (HumanMessage (content m))
      else if role m = ''ai'' then Some (AIMessage (content m))
      else if role m = ''system'' then Some (SystemMessage (content m))
      else None)"

definition conversation_messages :: "string \<Rightarrow> tables \<Rightarrow> message_row list" where
  \<comment> \<open>the rows of one conversation, in the order they were inserted\<close>
  "conversation_messages cid t = filter (\<lambda>m. msg_conversation_id m = cid) (messages t)"

definition get_conversation_history :: "string \<Rightarrow> storage \<Rightarrow> error + message list" where
  \<comment> \<open>\<^verbatim>\<open>... WHERE conversation_id = ? ORDER BY created_at\<close>; rows with equal
      timestamps come in insertion order\<close>
  "get_conversation_history cid st =
     (case st of
        Unavailable \<Rightarrow> Inl RuntimeError
      | Available t \<Rightarrow>
          Inr (List.map_filter to_message (sort_key msg_created_at (conversation_messages cid t))))"

section \<open>Documents, model services and the vector store\<close>

text \<open>
  A LangChain document is its text and a metadata dictionary; the loaders put the file
  path under the key \<open>source\<close>. The language model, the embedding model and the
  cross-encoder of src/models.py are opaque services that may raise; they are the
  fields of \<open>services\<close>. An embedding is a vector of floats, modelled by rationals.
  \<open>mmr\<close> is the library's maximal-marginal-relevance selection (the positions it
  picks among the fetched candidates) and \<open>doc_hash\<close> the identifier the indexing API
  derives from a document's text and metadata.
\<close>

type_synonym vector = "rat list"

record document =
  page_content :: string
  doc_metadata :: "(string \<times> string) list"

record services =
  llm :: "message list \<Rightarrow> error + string"
  embedder :: "string \<Rightarrow> error + vector"
  cross_encoder :: "string \<Rightarrow> string \<Rightarrow> error + rat"
  mmr :: "vector \<Rightarrow> vector list \<Rightarrow> nat \<Rightarrow> nat list"
  doc_hash :: "document \<Rightarrow> string"

fun sequence :: "(error + 'a) list \<Rightarrow> error + 'a list" where
  "sequence [] = Inr []"
| "sequence (r # rs) =
     (case r of
        Inl e \<Rightarrow> Inl e
      | Inr x \<Rightarrow> (case sequence rs of Inl e \<Rightarrow> Inl e | Inr xs \<Rightarrow> Inr (x # xs)))"

text \<open>
  The FAISS store: a flat inner-product index of a fixed dimension, the docstore and
  the table from index positions to docstore ids, kept together as one list of entries
  in index order. The store is library code outside src/; its operations are modelled
  from the spec (section 4.2): a search returns the entries of highest inner product,
  best first and ties in insertion order, and fewer than asked for when the store holds
  fewer; adding refuses ids that are duplicated or already stored, deleting refuses ids
  that are not stored.
\<close>

record faiss_entry =
  entry_id :: string
  entry_doc :: document
  entry_vector :: vector

record faiss =
  dimension :: nat
  entries :: "faiss_entry list"

datatype store_files = Missing | Corrupt | Incompatible | Saved faiss

definition load_local :: "store_files \<Rightarrow> error + faiss" where
  "load_local f = (case f of Saved vs \<Rightarrow> Inr vs | _ \<Rightarrow> Inl RuntimeError)"

definition save_local :: "faiss \<Rightarrow> store_files" where
  "save_local vs = Saved vs"

definition inner :: "vector \<Rightarrow> vector \<Rightarrow> rat" where
  "inner u v = sum_list (map (\<lambda>(x, y). x * y) (zip u v))"

definition faiss_search :: "faiss \<Rightarrow> vector \<Rightarrow> nat \<Rightarrow> faiss_entry list" where
  \<comment> \<open>the \<open>n\<close> entries of highest inner product, best first, ties in insertion order\<close>
  "faiss_search vs qv n = take n (sort_key (\<lambda>e. - inner qv (entry_vector e)) (entries vs))"

definition similarity_search :: "services \<Rightarrow> faiss \<Rightarrow> string \<Rightarrow> nat \<Rightarrow> error + document list" where
  "similarity_search svc vs query n =
     (case embedder svc query of
        Inl e \<Rightarrow> Inl e
      | Inr qv \<Rightarrow>
          if length qv \<noteq> dimension vs then Inl AssertionError
          else Inr (map entry_doc (faiss_search vs qv n)))"

definition max_marginal_relevance_search ::
  "services \<Rightarrow> faiss \<Rightarrow> string \<Rightarrow> nat \<Rightarrow> nat \<Rightarrow> error + document list" where
  "max_marginal_relevance_search svc vs query n fetch =
     (case embedder svc query of
        Inl e \<Rightarrow> Inl e
      | Inr qv \<Rightarrow>
          if length qv \<noteq> dimension vs then Inl AssertionError
          else
            let cands = faiss_search vs qv fetch;
                picked = mmr svc qv (map entry_vector cands) n
            in Inr (map (\<lambda>i. entry_doc (cands ! i)) (filter (\<lambda>i. i < length cands) picked)))"

definition faiss_add_documents ::
  "services \<Rightarrow> document list \<Rightarrow> string list \<Rightarrow> faiss \<Rightarrow> error + faiss" where
  \<comment> \<open>embeds the texts, refuses duplicate and already stored ids, appends the entries\<close>
  "faiss_add_documents svc docs ids vs =
     (case sequence (map (\<lambda>d. embedder svc (page_content d)) docs) of
        Inl e \<Rightarrow> Inl e
      | Inr vecs \<Rightarrow>
          if \<not> distinct ids then Inl ValueError
          else if \<exists>i \<in> set ids. i \<in> set (map entry_id (entries vs)) then Inl ValueError
          else if \<exists>v \<in> set vecs. length v \<noteq> dimension vs then Inl AssertionError
          else Inr (vs\<lparr>entries := entries vs @
                 map (\<lambda>(i, d, v). \<lparr>entry_id = i, entry_doc = d, entry_vector = v\<rparr>)
                   (zip ids (zip docs vecs))\<rparr>))"

definition faiss_delete :: "string list \<Rightarrow> faiss \<Rightarrow> error + faiss" where
  \<comment> \<open>raises when one of the ids is not stored\<close>
  "faiss_delete ids vs =
     (if \<exists>i \<in> set ids. i \<notin> set (map entry_id (entries vs)) then Inl ValueError
      else Inr (vs\<lparr>entries := filter (\<lambda>e. entry_id e \<notin> set ids) (entries vs)\<rparr>))"

section \<open>Retriever, reranker and answer generation (src/rag.py, src/models.py)\<close>

datatype search_type = MMR | Similarity

record retriever =
  search_type :: search_type
  search_kwargs :: "(string \<times> nat) list"

definition kwarg :: "(string \<times> nat) list \<Rightarrow> string \<Rightarrow> nat \<Rightarrow> nat" where
  \<comment> \<open>a keyword argument of the search, with the library's default when it is not given\<close>
  "kwarg kw name dflt = (case map_of kw name of None \<Rightarrow> dflt | Some v \<Rightarrow> v)"

definition retriever_invoke :: "services \<Rightarrow> retriever \<Rightarrow> faiss \<Rightarrow> string \<Rightarrow> error + document list" where
  "retriever_invoke svc r vs query =
     (case search_type r of
        Similarity \<Rightarrow> similarity_search svc vs query (kwarg (search_kwargs r) ''k'' 4)
      | MMR \<Rightarrow> max_marginal_relevance_search svc vs query
                 (kwarg (search_kwargs r) ''k'' 4) (kwarg (search_kwargs r) ''fetch_k'' 20))"

text \<open>
  The reranker is the library's \<^verbatim>\<open>CrossEncoderReranker\<close>, built in src/models.py with
  the parameter \<^verbatim>\<open>top_n\<close> (the number of documents to return after reranking). Its
  \<open>compress_documents\<close> is modelled from the spec (section 4.6): every candidate is
  scored against the query and the best \<open>top_n\<close> are returned by descending score.
\<close>

record cross_encoder_reranker =
  top_n :: nat

definition get_reranker :: "nat \<Rightarrow> cross_encoder_reranker" where
  "get_reranker n = \<lparr>top_n = n\<rparr>"

definition reranker :: cross_encoder_reranker where
  \<comment> \<open>the module-level singleton \<^verbatim>\<open>reranker = get_reranker()\<close>, with the default \<^verbatim>\<open>top_n = 5\<close>\<close>
  "reranker = get_reranker 5"

definition compress_documents ::
  "services \<Rightarrow> cross_encoder_reranker \<Rightarrow> document list \<Rightarrow> string \<Rightarrow> error + document list" where
  \<comment> \<open>scores every candidate against the query and returns the \<open>top_n\<close> best, best first\<close>
  "compress_documents svc rr docs query =
     (case sequence (map (\<lambda>d. cross_encoder svc query (page_content d)) docs) of
        Inl e \<Rightarrow> Inl e
      | Inr scores \<Rightarrow>
          Inr (map fst (take (top_n rr) (sort_key (\<lambda>(d, sc). - sc) (zip docs scores)))))"

text \<open>
  The record manager of the indexing API is a table of (key, group id, updated_at) in
  the SQLite file beside the vector store, with the database clock. The clock is a
  counter that every reading advances.
\<close>

record index_record =
  rec_key :: string
  group_id :: "string option"
  rec_updated_at :: timestamp

record record_manager =
  records :: "index_record list"
  clock :: timestamp

record rag =
  param_k :: nat
  param_fetch_k :: nat
  more_diverse :: bool
  rag_record_manager :: record_manager
  vector_store :: faiss
  rag_retriever :: retriever
  store_on_disk :: store_files

definition create_retriever :: "rag \<Rightarrow> rag" where
  "create_retriever s =
     (if more_diverse s
      then s\<lparr>rag_retriever := \<lparr>search_type = MMR,
               search_kwargs = [(''k'', param_k s), (''fetch_k'', param_fetch_k s)]\<rparr>\<rparr>
      else s\<lparr>rag_retriever := \<lparr>search_type = Similarity,
               search_kwargs = [(''k'', param_fetch_k s)]\<rparr>\<rparr>)"

definition change_type_of_search :: "bool \<Rightarrow> rag \<Rightarrow> rag" where
  "change_type_of_search b s = create_retriever (s\<lparr>more_diverse := b\<rparr>)"

definition contextualize_query_prompt :: string where
  "contextualize_query_prompt =
     ''Given the chat history and the latest user question, formulate a standalone question.''"

definition qa_prompt :: "string \<Rightarrow> string" where
  \<comment> \<open>the system prompt of the QA chain with \<open>{context}\<close> filled in\<close>
  "qa_prompt context =
     ''You are a helpful assistant. Use the following information: '' @ context @
     '' Follow these rules.''"

fun join :: "string \<Rightarrow> string list \<Rightarrow> string" where
  \<comment> \<open>Python's \<^verbatim>\<open>sep.join(parts)\<close>\<close>
  "join sep [] = []"
| "join sep [x] = x"
| "join sep (x # y # ys) = x @ sep @ join sep (y # ys)"

definition format_docs :: "document list \<Rightarrow> string" where
  \<comment> \<open>\<^verbatim>\<open>"\n\n".join(doc.page_content for doc in docs)\<close>\<close>
  "format_docs docs = join [CHR 0x0A, CHR 0x0A] (map page_content docs)"

text \<open>
  \<open>generate\<close> returns the answer together with a trace of the stages it went through:
  the documents the retriever returned, the documents the reranker returned when it was
  invoked, and the documents that were put into the QA prompt.
\<close>

datatype stage =
  Contextualized string
| Retrieved search_type "document list"
| Reranked "document list"
| Composed "document list"

definition generate ::
  "services \<Rightarrow> string \<Rightarrow> message list \<Rightarrow> rag \<Rightarrow> (error + string) \<times> stage list" where
  "generate svc query chat_history s =
     (case llm svc ([SystemMessage contextualize_query_prompt] @ chat_history @ [HumanMessage query]) of
        Inl e \<Rightarrow> (Inl e, [])
      | Inr contextualized \<Rightarrow>
          (case retriever_invoke svc (rag_retriever s) (vector_store s) contextualized of
             Inl e \<Rightarrow> (Inl e, [Contextualized contextualized])
           | Inr docs \<Rightarrow>
               (case (if \<not> more_diverse s
                      then (case compress_documents svc reranker docs contextualized of
                              Inl e \<Rightarrow> Inl e
                            | Inr ds \<Rightarrow> Inr (ds, [Reranked ds]))
                      else Inr (docs, [])) of
                  Inl e \<Rightarrow>
                    (Inl e, [Contextualized contextualized,
                             Retrieved (search_type (rag_retriever s)) docs])
                | Inr (docs', tr) \<Rightarrow>
                    (llm svc ([SystemMessage (qa_prompt (format_docs docs'))] @ chat_history @
                              [HumanMessage query]),
                     [Contextualized contextualized,
                      Retrieved (search_type (rag_retriever s)) docs] @ tr @ [Composed docs']))))"

definition init_record_manager :: "record_manager option \<Rightarrow> record_manager" where
  \<comment> \<open>\<open>list_keys\<close> raises when the schema is missing; then the schema is created\<close>
  "init_record_manager db = (case db of None \<Rightarrow> \<lparr>records = [], clock = 0\<rparr> | Some rm \<Rightarrow> rm)"

definition init_vector_store :: "services \<Rightarrow> store_files \<Rightarrow> error + faiss \<times> store_files" where
  "init_vector_store svc files =
     (case load_local files of
        Inr vs \<Rightarrow> Inr (vs, files)
      | Inl _ \<Rightarrow>
          (case embedder svc ''__dummy__'' of
             Inl e \<Rightarrow> Inl e
           | Inr dummy_vector \<Rightarrow>
               let vs = \<lparr>dimension = length dummy_vector, entries = []\<rparr>
               in Inr (vs, save_local vs)))"

definition rag_init ::
  "services \<Rightarrow> nat \<Rightarrow> nat \<Rightarrow> record_manager option \<Rightarrow> store_files \<Rightarrow> error + rag" where
  \<comment> \<open>\<^verbatim>\<open>RAG.__init__\<close>; the retriever attribute does not exist before
      \<open>create_retriever\<close> sets it\<close>
  "rag_init svc k fetch_k db files =
     (case init_vector_store svc files of
        Inl e \<Rightarrow> Inl RuntimeError
      | Inr (vs, files') \<Rightarrow>
          Inr (create_retriever
                 \<lparr>param_k = k, param_fetch_k = fetch_k, more_diverse = True,
                  rag_record_manager = init_record_manager db, vector_store = vs,
                  rag_retriever = \<lparr>search_type = MMR, search_kwargs = []\<rparr>,
                  store_on_disk = files'\<rparr>))"

definition retriever_current :: "rag \<Rightarrow> bool" where
  \<comment> \<open>the retriever held is the one \<open>create_retriever\<close> builds for the current mode\<close>
  "retriever_current s = (rag_retriever s = rag_retriever (create_retriever s))"



section \<open>Chunking (src/data_loader.py, \<open>split_documents\<close>)\<close>

text \<open>
  \<open>split_documents\<close> builds a \<^verbatim>\<open>RecursiveCharacterTextSplitter\<close> with the separator
  list below, \<^verbatim>\<open>keep_separator=True\<close> and \<^verbatim>\<open>strip_whitespace=True\<close>, and applies it to
  every document. The splitter is library code; its algorithm is written out here:
  \<open>split_text_with_regex\<close> cuts a text at the occurrences of one separator and leaves
  each separator at the head of the piece that follows it, \<open>merge_splits\<close> packs
  consecutive pieces into chunks of at most \<open>chunk_size\<close> characters and carries
  trailing pieces of at most \<open>chunk_overlap\<close> characters over into the next chunk, and
  \<open>split_text\<close> picks the first separator of the list that occurs in the text and splits
  pieces that are still too long with the separators after it.
\<close>

definition separators :: "string list" where
  "separators = [[CHR 0x0A, CHR 0x0A], [CHR 0x0A], ''.'', ''!'', ''?'', '','', '' '', '''']"

function split_on :: "string \<Rightarrow> string \<Rightarrow> string \<Rightarrow> string list" where
  "split_on sep cur txt =
     (if txt = [] then [rev cur]
      else if sep \<noteq> [] \<and> take (length sep) txt = sep
           then rev cur # split_on sep [] (drop (length sep) txt)
      else split_on sep (hd txt # cur) (tl txt))"
  by pat_completeness auto
termination
  by (relation "measure (\<lambda>(sep, cur, txt). length txt)") auto

declare split_on.simps [simp del]

definition split_text_with_regex :: "string \<Rightarrow> string \<Rightarrow> string list" where
  \<comment> \<open>\<^verbatim>\<open>re.split\<close> on the escaped separator, separators kept at the start of the
      following piece, empty pieces dropped; the empty separator splits into characters\<close>
  "split_text_with_regex txt sep =
     (if sep \<noteq> []
      then (case split_on sep [] txt of
              [] \<Rightarrow> []
            | first # rest \<Rightarrow> filter (\<lambda>s. s \<noteq> []) (first # map (\<lambda>t. sep @ t) rest))
      else map (\<lambda>c. [c]) txt)"

definition is_space :: "char \<Rightarrow> bool" where
  \<comment> \<open>the ASCII characters that \<^verbatim>\<open>str.strip()\<close> removes\<close>
  "is_space c = (c \<in> set [CHR 0x20, CHR 0x09, CHR 0x0A, CHR 0x0B, CHR 0x0C, CHR 0x0D,
                           CHR 0x1C, CHR 0x1D, CHR 0x1E, CHR 0x1F])"

definition strip :: "string \<Rightarrow> string" where
  "strip txt = rev (dropWhile is_space (rev (dropWhile is_space txt)))"

definition join_docs :: "string list \<Rightarrow> string \<Rightarrow> string option" where
  "join_docs docs sep = (let txt = strip (join sep docs) in if txt = [] then None else Some txt)"

primrec pop_front :: "string list \<Rightarrow> nat \<Rightarrow> nat \<Rightarrow> nat \<Rightarrow> nat \<Rightarrow> nat \<Rightarrow> nat \<times> string list" where
  \<comment> \<open>the inner \<^verbatim>\<open>while\<close> of \<^verbatim>\<open>_merge_splits\<close>, on \<open>current_doc\<close> and \<open>total\<close>: drop
      leading pieces of \<open>current_doc\<close> while more than \<open>chunk_overlap\<close> characters are
      held, or while the next piece (of length \<open>len\<close>) does not fit. \<open>total\<close> is the
      length of the joined \<open>current_doc\<close>, so it is 0 when \<open>current_doc\<close> is empty and
      the loop ends there.\<close>
  "pop_front [] total_len chunk_size chunk_overlap sep_len len = (total_len, [])"
| "pop_front (x # xs) total_len chunk_size chunk_overlap sep_len len =
     (if total_len > chunk_overlap \<or>
         (total_len + len + sep_len > chunk_size \<and> total_len > 0)
      then pop_front xs (total_len - (length x + (if xs \<noteq> [] then sep_len else 0)))
             chunk_size chunk_overlap sep_len len
      else (total_len, x # xs))"

primrec merge_loop ::
  "string list \<Rightarrow> string list \<Rightarrow> string list \<Rightarrow> nat \<Rightarrow> nat \<Rightarrow> nat \<Rightarrow> string \<Rightarrow> string list" where
  \<comment> \<open>the \<^verbatim>\<open>for d in splits\<close> of \<^verbatim>\<open>_merge_splits\<close>; arguments: the splits still to
      come, docs, current_doc, total, chunk_size, chunk_overlap, separator\<close>
  "merge_loop [] docs current_doc total_len chunk_size chunk_overlap sep =
     (case join_docs current_doc sep of None \<Rightarrow> docs | Some doc \<Rightarrow> docs @ [doc])"
| "merge_loop (d # ds) docs current_doc total_len chunk_size chunk_overlap sep =
     (if total_len + length d + (if current_doc \<noteq> [] then length sep else 0) > chunk_size
         \<and> current_doc \<noteq> []
      then
        let docs' = (case join_docs current_doc sep of None \<Rightarrow> docs | Some doc \<Rightarrow> docs @ [doc]);
            popped = pop_front current_doc total_len chunk_size chunk_overlap
                       (length sep) (length d)
        in merge_loop ds docs' (snd popped @ [d])
             (fst popped + length d + (if snd popped \<noteq> [] then length sep else 0))
             chunk_size chunk_overlap sep
      else merge_loop ds docs (current_doc @ [d])
             (total_len + length d + (if current_doc \<noteq> [] then length sep else 0))
             chunk_size chunk_overlap sep)"

definition merge_splits :: "nat \<Rightarrow> nat \<Rightarrow> string list \<Rightarrow> string \<Rightarrow> string list" where
  "merge_splits chunk_size chunk_overlap splits sep =
     merge_loop splits [] [] 0 chunk_size chunk_overlap sep"

fun occurs :: "string \<Rightarrow> string \<Rightarrow> bool" where
  \<comment> \<open>\<^verbatim>\<open>re.search\<close> of a literal\<close>
  "occurs s [] = (s = [])"
| "occurs s (c # cs) = (take (length s) (c # cs) = s \<or> occurs s cs)"

primrec split_loop ::
  "string list \<Rightarrow> string list \<Rightarrow> nat \<Rightarrow> (string list \<Rightarrow> string list) \<Rightarrow>
   (string \<Rightarrow> string list) \<Rightarrow> string list" where
  \<comment> \<open>the \<^verbatim>\<open>for s in splits\<close> of \<^verbatim>\<open>_split_text\<close>: \<open>merge\<close> packs the short pieces
      collected in \<open>good_splits\<close>, \<open>deeper\<close> treats a piece that is too long\<close>
  "split_loop [] good_splits chunk_size merge deeper =
     (if good_splits \<noteq> [] then merge good_splits else [])"
| "split_loop (s # ss) good_splits chunk_size merge deeper =
     (if length s < chunk_size
      then split_loop ss (good_splits @ [s]) chunk_size merge deeper
      else (if good_splits \<noteq> [] then merge good_splits else []) @ deeper s @
           split_loop ss [] chunk_size merge deeper)"

primrec split_text :: "nat \<Rightarrow> nat \<Rightarrow> string list \<Rightarrow> string \<Rightarrow> string list" where
  \<comment> \<open>\<^verbatim>\<open>_split_text(text, separators)\<close>. With \<^verbatim>\<open>keep_separator=True\<close> the pieces are
      merged with the empty separator. The recursion is never entered with an empty
      separator list.\<close>
  "split_text chunk_size chunk_overlap [] txt = []"
| "split_text chunk_size chunk_overlap (s # rest) txt =
     (if s = [] then
        split_loop (split_text_with_regex txt s) [] chunk_size
          (\<lambda>g. merge_splits chunk_size chunk_overlap g []) (\<lambda>x. [x])
      else if occurs s txt then
        split_loop (split_text_with_regex txt s) [] chunk_size
          (\<lambda>g. merge_splits chunk_size chunk_overlap g [])
          (if rest = [] then (\<lambda>x. [x]) else split_text chunk_size chunk_overlap rest)
      else if rest = [] then
        split_loop (split_text_with_regex txt s) [] chunk_size
          (\<lambda>g. merge_splits chunk_size chunk_overlap g []) (\<lambda>x. [x])
      else split_text chunk_size chunk_overlap rest txt)"

definition split_documents :: "document list \<Rightarrow> nat \<Rightarrow> nat \<Rightarrow> error + document list" where
  \<comment> \<open>the constructor of the splitter refuses a size of 0 and an overlap above the size\<close>
  "split_documents documents chunk_size chunk_overlap =
     (if documents = [] then Inr []
      else if chunk_size = 0 \<or> chunk_overlap > chunk_size then Inl ValueError
      else Inr (concat (map (\<lambda>d. map (\<lambda>chunk. \<lparr>page_content = chunk, doc_metadata = doc_metadata d\<rparr>)
                                     (split_text chunk_size chunk_overlap separators (page_content d)))
                            documents)))"

section \<open>Incremental synchronisation (src/rag.py, \<open>add_documents\<close>)\<close>

text \<open>
  \<open>add_documents\<close> splits the documents and hands the chunks to the indexing API,
  \<^verbatim>\<open>index(chunks, record_manager, vector_store, cleanup="full", source_id_key="source")\<close>,
  and then saves the vector store. The indexing API is library code; its algorithm, as
  section 4.3 of the specification gives it, is written out here. It reads the clock
  once at the start, works through the chunks in batches of 100 (within a batch a chunk
  whose hash was already seen is dropped), adds the chunks whose hash has no record to
  the vector store, stamps the records of all chunks of the batch with the current
  time, and at the end deletes, 1000 at a time, every record stamped before the start
  together with its vector entry.
\<close>

definition get_time :: "record_manager \<Rightarrow> timestamp \<times> record_manager" where
  "get_time rm = (clock rm, rm\<lparr>clock := Suc (clock rm)\<rparr>)"

definition rm_keys :: "record_manager \<Rightarrow> string set" where
  "rm_keys rm = set (map rec_key (records rm))"

definition upsert :: "timestamp \<Rightarrow> index_record list \<Rightarrow> string \<times> string option \<Rightarrow> index_record list" where
  "upsert t rs kg =
     (if fst kg \<in> set (map rec_key rs)
      then map (\<lambda>r. if rec_key r = fst kg then r\<lparr>group_id := snd kg, rec_updated_at := t\<rparr> else r) rs
      else rs @ [\<lparr>rec_key = fst kg, group_id = snd kg, rec_updated_at = t\<rparr>])"

definition rm_update :: "string list \<Rightarrow> string option list \<Rightarrow> record_manager \<Rightarrow> record_manager" where
  \<comment> \<open>\<^verbatim>\<open>record_manager.update(keys, group_ids=...)\<close>: inserts or re-stamps every key with
      the time read now\<close>
  "rm_update keys groups rm =
     (let tr = get_time rm
      in (snd tr)\<lparr>records := foldl (upsert (fst tr)) (records (snd tr)) (zip keys groups)\<rparr>)"

definition list_keys :: "timestamp \<Rightarrow> nat \<Rightarrow> record_manager \<Rightarrow> string list" where
  \<comment> \<open>\<^verbatim>\<open>list_keys(before=t, limit=n)\<close>\<close>
  "list_keys t limit rm =
     take limit (map rec_key (filter (\<lambda>r. rec_updated_at r < t) (records rm)))"

definition delete_keys :: "string list \<Rightarrow> record_manager \<Rightarrow> record_manager" where
  "delete_keys keys rm = rm\<lparr>records := filter (\<lambda>r. rec_key r \<notin> set keys) (records rm)\<rparr>"

function batches :: "nat \<Rightarrow> 'a list \<Rightarrow> 'a list list" where
  "batches n xs = (if xs = [] \<or> n = 0 then [] else take n xs # batches n (drop n xs))"
  by pat_completeness auto
termination
  by (relation "measure (\<lambda>(n, xs). length xs)") auto

declare batches.simps [simp del]

primrec deduplicate_in_order :: "(document \<Rightarrow> string) \<Rightarrow> document list \<Rightarrow> string list \<Rightarrow> document list" where
  "deduplicate_in_order h [] seen = []"
| "deduplicate_in_order h (d # ds) seen =
     (if h d \<in> set seen then deduplicate_in_order h ds seen
      else d # deduplicate_in_order h ds (h d # seen))"

definition source_id :: "document \<Rightarrow> string option" where
  \<comment> \<open>\<^verbatim>\<open>doc.metadata["source"]\<close>; \<open>None\<close> stands for the KeyError of a missing key\<close>
  "source_id d = map_of (doc_metadata d) ''source''"

record index_result =
  num_added :: nat
  num_updated :: nat
  num_skipped :: nat
  num_deleted :: nat

text \<open>
  The state of a pass: the record manager, the vector store, the counters of the result,
  and two lists kept for the statements below: the texts sent to the embedding model
  and the ids deleted from the vector store.
\<close>

record pass =
  pass_rm :: record_manager
  pass_vs :: faiss
  pass_result :: index_result
  embedded :: "string list"
  deleted :: "string list"

definition index_batch :: "services \<Rightarrow> document list \<Rightarrow> pass \<Rightarrow> error + pass" where
  "index_batch svc doc_batch p =
     (let hashed_docs = deduplicate_in_order (doc_hash svc) doc_batch [];
          source_ids = map source_id hashed_docs
      in if None \<in> set source_ids then Inl KeyError
         else
           let uids_to_refresh =
                 map (doc_hash svc) (filter (\<lambda>d. doc_hash svc d \<in> rm_keys (pass_rm p)) hashed_docs);
               docs_to_index = filter (\<lambda>d. doc_hash svc d \<notin> rm_keys (pass_rm p)) hashed_docs;
               uids = map (doc_hash svc) docs_to_index;
               rm1 = (if uids_to_refresh \<noteq> []
                      then rm_update uids_to_refresh (map (\<lambda>_. None) uids_to_refresh) (pass_rm p)
                      else pass_rm p)
           in case (if docs_to_index \<noteq> []
                    then faiss_add_documents svc docs_to_index uids (pass_vs p)
                    else Inr (pass_vs p)) of
                Inl e \<Rightarrow> Inl e
              | Inr vs' \<Rightarrow>
                  Inr (p\<lparr>pass_rm := rm_update (map (doc_hash svc) hashed_docs) source_ids rm1,
                         pass_vs := vs',
                         pass_result := (pass_result p)
                           \<lparr>num_added := num_added (pass_result p) + length docs_to_index,
                            num_skipped := num_skipped (pass_result p) + length uids_to_refresh\<rparr>,
                         embedded := embedded p @ map page_content docs_to_index\<rparr>))"

primrec index_batches :: "services \<Rightarrow> document list list \<Rightarrow> pass \<Rightarrow> error + pass" where
  "index_batches svc [] p = Inr p"
| "index_batches svc (b # bs) p =
     (case index_batch svc b p of Inl e \<Rightarrow> Inl e | Inr p' \<Rightarrow> index_batches svc bs p')"

function full_cleanup :: "timestamp \<Rightarrow> pass \<Rightarrow> error + pass" where
  \<comment> \<open>\<^verbatim>\<open>while uids_to_delete := record_manager.list_keys(before=index_start_dt, limit=1000)\<close>\<close>
  "full_cleanup t p =
     (let uids_to_delete = list_keys t 1000 (pass_rm p)
      in if uids_to_delete = [] then Inr p
         else case faiss_delete uids_to_delete (pass_vs p) of
                Inl e \<Rightarrow> Inl e
              | Inr vs' \<Rightarrow>
                  full_cleanup t
                    (p\<lparr>pass_vs := vs',
                       pass_rm := delete_keys uids_to_delete (pass_rm p),
                       pass_result := (pass_result p)
                         \<lparr>num_deleted := num_deleted (pass_result p) + length uids_to_delete\<rparr>,
                       deleted := deleted p @ uids_to_delete\<rparr>))"
  by pat_completeness auto
termination
proof (relation "measure (\<lambda>(t, p). length (filter (\<lambda>r. rec_updated_at r < t) (records (pass_rm p))))",
       goal_cases)
  case 1
  show ?case by simp
next
  case (2 t p uids_to_delete vs')
  let ?rm = "pass_rm p"
  let ?stale = "filter (\<lambda>r. rec_updated_at r < t) (records ?rm)"
  let ?ks = "list_keys t 1000 ?rm"
  from 2 have "?ks \<noteq> []" by simp
  then obtain k where k: "k \<in> set ?ks" by (cases ?ks) auto
  then have "k \<in> set (map rec_key ?stale)"
    by (auto simp: list_keys_def dest: in_set_takeD)
  then obtain r where r: "r \<in> set ?stale" "rec_key r = k" by auto
  have "length (filter (\<lambda>r. rec_key r \<notin> set ?ks) ?stale) < length ?stale"
    using r k by (intro length_filter_less [of r]) auto
  moreover have "filter (\<lambda>r. rec_updated_at r < t) (records (delete_keys ?ks ?rm))
      = filter (\<lambda>r. rec_key r \<notin> set ?ks) ?stale"
    by (simp add: delete_keys_def conj_commute)
  ultimately have "length (filter (\<lambda>r. rec_updated_at r < t) (records (delete_keys ?ks ?rm)))
      < length ?stale"
    by simp
  with 2 show ?case by simp
qed

declare full_cleanup.simps [simp del]

definition index :: "services \<Rightarrow> document list \<Rightarrow> record_manager \<Rightarrow> faiss \<Rightarrow> error + pass" where
  "index svc docs rm vs =
     (let tr = get_time rm;
          index_start_dt = fst tr;
          p0 = \<lparr>pass_rm = snd tr, pass_vs = vs,
                pass_result = \<lparr>num_added = 0, num_updated = 0, num_skipped = 0, num_deleted = 0\<rparr>,
                embedded = [], deleted = []\<rparr>
      in case index_batches svc (batches 100 docs) p0 of
           Inl e \<Rightarrow> Inl e
         | Inr p \<Rightarrow> full_cleanup index_start_dt p)"

definition add_documents :: "services \<Rightarrow> document list \<Rightarrow> rag \<Rightarrow> error + rag \<times> pass option" where
  \<comment> \<open>the second component is the pass that ran; \<open>None\<close> when the list is empty and the
      method returns after printing its notice\<close>
  "add_documents svc documents s =
     (if documents = [] then Inr (s, None)
      else case split_documents documents 1000 200 of
             Inl e \<Rightarrow> Inl e
           | Inr splitted_docs \<Rightarrow>
               (case index svc splitted_docs (rag_record_manager s) (vector_store s) of
                  Inl e \<Rightarrow> Inl e
                | Inr p \<Rightarrow>
                    Inr (s\<lparr>rag_record_manager := pass_rm p, vector_store := pass_vs p,
                           store_on_disk := save_local (pass_vs p)\<rparr>, Some p)))"


definition stale_keys :: "timestamp \<Rightarrow> record_manager \<Rightarrow> string set" where
  \<comment> \<open>the keys of the records stamped before \<open>t\<close>\<close>
  "stale_keys t rm = rec_key ` {r \<in> set (records rm). rec_updated_at r < t}"

definition texts_embedded :: "pass option \<Rightarrow> string list" where
  \<comment> \<open>the texts a call of \<open>add_documents\<close> sent to the embedding model\<close>
  "texts_embedded r = (case r of None \<Rightarrow> [] | Some p \<Rightarrow> embedded p)"

definition ids_deleted :: "pass option \<Rightarrow> string list" where
  \<comment> \<open>the ids a call of \<open>add_documents\<close> deleted from the vector store\<close>
  "ids_deleted r = (case r of None \<Rightarrow> [] | Some p \<Rightarrow> deleted p)"

section \<open>Loading documents (src/data_loader.py, \<open>load_documents_from_directory\<close>)\<close>

text \<open>
  The file system as the function sees it: what exists, what is a directory or a regular
  file, the listing of a directory, and what a loader makes of a file (its documents, or
  the exception it raises).
\<close>

datatype loader =
  PyPDFLoader | TextLoader | Docx2txtLoader | UnstructuredHTMLLoader | UnstructuredMarkdownLoader

definition LOADER_CONFIGS :: "(string \<times> loader) list" where
  "LOADER_CONFIGS =
     [(''.pdf'', PyPDFLoader), (''.txt'', TextLoader), (''.doc'', Docx2txtLoader),
      (''.docx'', Docx2txtLoader), (''.html'', UnstructuredHTMLLoader),
      (''.md'', UnstructuredMarkdownLoader)]"

record file_system =
  path_exists :: "string \<Rightarrow> bool"
  isdir :: "string \<Rightarrow> bool"
  isfile :: "string \<Rightarrow> bool"
  listdir :: "string \<Rightarrow> string list"
  load_file :: "loader \<Rightarrow> string \<Rightarrow> error + document list"

definition path_join :: "string \<Rightarrow> string \<Rightarrow> string" where
  \<comment> \<open>\<^verbatim>\<open>os.path.join\<close> of a directory and a name that holds no separator\<close>
  "path_join dir name =
     (if dir = [] \<or> last dir = CHR ''/'' then dir @ name else dir @ ''/'' @ name)"

definition splitext :: "string \<Rightarrow> string \<times> string" where
  \<comment> \<open>\<^verbatim>\<open>os.path.splitext\<close> of a file name: the extension starts at the last dot, unless
      only dots stand before it\<close>
  "splitext name =
     (let stem = rev (drop 1 (dropWhile (\<lambda>c. c \<noteq> CHR ''.'') (rev name)));
          ext = drop (length stem) name
      in if CHR ''.'' \<in> set name \<and> (\<exists>c \<in> set stem. c \<noteq> CHR ''.'') then (stem, ext)
         else (name, []))"

definition lower_char :: "char \<Rightarrow> char" where
  "lower_char c =
     (if (65 :: nat) \<le> of_char c \<and> of_char c \<le> (90 :: nat)
      then char_of (of_char c + (32 :: nat)) else c)"

definition lower :: "string \<Rightarrow> string" where
  "lower s = map lower_char s"

primrec load_loop :: "file_system \<Rightarrow> string \<Rightarrow> string list \<Rightarrow> document list \<Rightarrow> document list" where
  \<comment> \<open>the \<^verbatim>\<open>for file_name in os.listdir(directory_path)\<close>; calling the missing
      loader class of an unsupported extension raises TypeError inside the \<^verbatim>\<open>try\<close>\<close>
  "load_loop fs directory_path [] documents = documents"
| "load_loop fs directory_path (file_name # names) documents =
     (let file_path = path_join directory_path file_name
      in if isfile fs file_path
         then (case map_of LOADER_CONFIGS (lower (snd (splitext file_name))) of
                 None \<Rightarrow> load_loop fs directory_path names documents
               | Some loader_class \<Rightarrow>
                   (case load_file fs loader_class file_path of
                      Inl e \<Rightarrow> load_loop fs directory_path names documents
                    | Inr loaded_docs \<Rightarrow>
                        load_loop fs directory_path names (documents @ loaded_docs)))
         else load_loop fs directory_path names documents)"

definition load_documents_from_directory :: "file_system \<Rightarrow> string \<Rightarrow> error + document list" where
  "load_documents_from_directory fs directory_path =
     (if \<not> path_exists fs directory_path then Inl ValueError
      else if \<not> isdir fs directory_path then Inl ValueError
      else Inr (load_loop fs directory_path (listdir fs directory_path) []))"

definition get_supported_extensions :: "string list" where
  "get_supported_extensions = map fst LOADER_CONFIGS"

definition loadable :: "file_system \<Rightarrow> string \<Rightarrow> string \<Rightarrow> document list option" where
  \<comment> \<open>the documents of one directory entry, when it is a regular file with a supported
      extension (in any letter case) that its loader parses\<close>
  "loadable fs directory_path file_name =
     (if isfile fs (path_join directory_path file_name)
      then (case map_of LOADER_CONFIGS (lower (snd (splitext file_name))) of
              None \<Rightarrow> None
            | Some l \<Rightarrow>
                (case load_file fs l (path_join directory_path file_name) of
                   Inl e \<Rightarrow> None
                 | Inr ds \<Rightarrow> Some ds))
      else None)"

section \<open>The chat bot (src/chat_bot.py)\<close>

text \<open>
  \<open>chat\<close> reads the history, trims it with the library's \<^verbatim>\<open>trim_messages\<close>
  (\<^verbatim>\<open>strategy="last"\<close>, \<^verbatim>\<open>start_on="human"\<close>, \<^verbatim>\<open>include_system=True\<close>,
  \<^verbatim>\<open>allow_partial=False\<close>, counting with \<^verbatim>\<open>count_tokens_approximately\<close>), asks the
  model and saves the two messages. The library functions are written out as documented:
  the counter takes a quarter of the characters of content and role, rounded up, plus 3
  for every message; the trimming sets a system message at index 0 aside, keeps the
  longest tail of the other messages that fits what is left of the budget, and drops
  from the front of that tail everything before its first human message.
\<close>

definition is_human :: "message \<Rightarrow> bool" where
  "is_human m = (case m of HumanMessage _ \<Rightarrow> True | _ \<Rightarrow> False)"

definition is_system :: "message \<Rightarrow> bool" where
  "is_system m = (case m of SystemMessage _ \<Rightarrow> True | _ \<Rightarrow> False)"

definition message_chars :: "message \<Rightarrow> nat" where
  \<comment> \<open>the characters of the content and of the role name (user, assistant, system)\<close>
  "message_chars m =
     (case m of
        HumanMessage c \<Rightarrow> length c + 4
      | AIMessage c \<Rightarrow> length c + 9
      | SystemMessage c \<Rightarrow> length c + 6)"

definition count_tokens_approximately :: "message list \<Rightarrow> nat" where
  "count_tokens_approximately ms = sum_list (map (\<lambda>m. (message_chars m + 3) div 4 + 3) ms)"

primrec largest_fit :: "(message list \<Rightarrow> nat) \<Rightarrow> nat \<Rightarrow> message list \<Rightarrow> nat \<Rightarrow> nat" where
  \<comment> \<open>the largest \<open>idx\<close> up to \<open>n\<close> such that the first \<open>idx\<close> messages fit; 0 when none does\<close>
  "largest_fit counter max_tokens ms 0 = 0"
| "largest_fit counter max_tokens ms (Suc n) =
     (if counter (take (Suc n) ms) \<le> max_tokens then Suc n
      else largest_fit counter max_tokens ms n)"

definition first_max_tokens :: "(message list \<Rightarrow> nat) \<Rightarrow> nat \<Rightarrow> message list \<Rightarrow> message list" where
  \<comment> \<open>\<^verbatim>\<open>_first_max_tokens(..., end_on="human")\<close>: the longest prefix that fits, cut back to
      end on a human message\<close>
  "first_max_tokens counter max_tokens ms =
     rev (dropWhile (\<lambda>m. \<not> is_human m)
            (rev (take (largest_fit counter max_tokens ms (length ms)) ms)))"

definition trim_messages :: "(message list \<Rightarrow> nat) \<Rightarrow> nat \<Rightarrow> message list \<Rightarrow> message list" where
  "trim_messages counter max_tokens ms =
     (case ms of
        [] \<Rightarrow> []
      | m # rest \<Rightarrow>
          if is_system m
          then m # rev (first_max_tokens counter (max_tokens - counter [m]) (rev rest))
          else rev (first_max_tokens counter max_tokens (rev ms)))"

record chat_bot =
  db :: storage
  use_rag :: bool
  bot_rag :: rag

definition assistant_prompt :: string where
  "assistant_prompt = ''You are a helpful assistant. Be brief and concise.''"

definition chat ::
  "services \<Rightarrow> string \<Rightarrow> string \<Rightarrow> string \<times> timestamp \<Rightarrow> string \<times> timestamp \<Rightarrow>
   chat_bot \<Rightarrow> (error + string) \<times> chat_bot" where
  \<comment> \<open>the two pairs are the uuid4 and the clock reading of the two \<open>save_message\<close> calls\<close>
  "chat svc query cid stamp1 stamp2 self =
     (case get_conversation_history cid (db self) of
        Inl e \<Rightarrow> (Inl e, self)
      | Inr history \<Rightarrow>
          let chat_history = trim_messages count_tokens_approximately 150000 history
          in case (if use_rag self
                   then fst (generate svc query chat_history (bot_rag self))
                   else llm svc ([SystemMessage assistant_prompt] @ chat_history @
                                 [HumanMessage query])) of
               Inl e \<Rightarrow> (Inl e, self)
             | Inr response \<Rightarrow>
                 (case save_message cid ''human'' query (fst stamp1) (snd stamp1) (db self) of
                    (Inl e, st1) \<Rightarrow> (Inl e, self\<lparr>db := st1\<rparr>)
                  | (Inr _, st1) \<Rightarrow>
                      (case save_message cid ''ai'' response (fst stamp2) (snd stamp2) st1 of
                         (Inl e, st2) \<Rightarrow> (Inl e, self\<lparr>db := st2\<rparr>)
                       | (Inr _, st2) \<Rightarrow> (Inr response, self\<lparr>db := st2\<rparr>))))"

section \<open>A concrete installation used to evaluate the definitions\<close>

definition mk_doc :: "string \<Rightarrow> string \<Rightarrow> document" where
  "mk_doc txt src = \<lparr>page_content = txt, doc_metadata = [(''source'', src)]\<rparr>"

definition example_services :: services where
  "example_services =
     \<lparr>llm = (\<lambda>ms. Inr ''answer''),
      embedder = (\<lambda>txt. Inr [rat_of_nat (length txt), 1]),
      cross_encoder = (\<lambda>query txt. Inr (rat_of_nat (length txt))),
      mmr = (\<lambda>qv vecs n. [0..<min n (length vecs)]),
      doc_hash = (\<lambda>d. page_content d @ ''|'' @
                    (case map_of (doc_metadata d) ''source'' of None \<Rightarrow> [] | Some src \<Rightarrow> src))\<rparr>"

definition example_entry :: "nat \<Rightarrow> faiss_entry" where
  "example_entry n =
     \<lparr>entry_id = replicate n CHR ''x'' @ ''|a.txt'',
      entry_doc = mk_doc (replicate n CHR ''x'') ''a.txt'',
      entry_vector = [rat_of_nat n, 1]\<rparr>"

definition example_rag :: rag where
  \<comment> \<open>the defaults \<^verbatim>\<open>k = 3\<close>, \<^verbatim>\<open>fetch_k = 10\<close> over a store of twelve chunks\<close>
  "example_rag =
     create_retriever
       \<lparr>param_k = 3, param_fetch_k = 10, more_diverse = True,
        rag_record_manager = \<lparr>records = [], clock = 0\<rparr>,
        vector_store = \<lparr>dimension = 2, entries = map example_entry [1..<13]\<rparr>,
        rag_retriever = \<lparr>search_type = MMR, search_kwargs = []\<rparr>,
        store_on_disk = Missing\<rparr>"

definition example_docs :: "document list" where
  "example_docs = [mk_doc ''Alpha text.'' ''a.txt'', mk_doc ''Beta text.'' ''b.txt'']"

definition example_empty :: rag where
  \<comment> \<open>a freshly created installation: no records, an empty index of dimension 2\<close>
  "example_empty =
     create_retriever
       \<lparr>param_k = 3, param_fetch_k = 10, more_diverse = True,
        rag_record_manager = \<lparr>records = [], clock = 0\<rparr>,
        vector_store = \<lparr>dimension = 2, entries = []\<rparr>,
        rag_retriever = \<lparr>search_type = MMR, search_kwargs = []\<rparr>,
        store_on_disk = Saved \<lparr>dimension = 2, entries = []\<rparr>\<rparr>"

definition example_indexed :: rag where
  \<comment> \<open>the installation after \<open>example_docs\<close> have been indexed\<close>
  "example_indexed = fst (projr (add_documents example_services example_docs example_empty))"

definition example_fs :: file_system where
  "example_fs =
     \<lparr>path_exists = (\<lambda>p. True),
      isdir = (\<lambda>p. p \<in> set [''data/documents'', ''data/documents/sub'']),
      isfile = (\<lambda>p. p \<in> set [''data/documents/a.txt'', ''data/documents/b.xyz'',
                              ''data/documents/c.PDF'', ''data/documents/d.MD'']),
      listdir = (\<lambda>p. if p = ''data/documents'' then [''a.txt'', ''b.xyz'', ''c.PDF'', ''sub'', ''d.MD'']
                     else []),
      load_file = (\<lambda>l p. if p = ''data/documents/a.txt'' then Inr [mk_doc ''Alpha text.'' p]
                          else if p = ''data/documents/d.MD'' then Inr [mk_doc ''Delta'' p]
                          else Inl ValueError)\<rparr>"

definition example_tables :: tables where
  "example_tables =
     \<lparr>conversations =
        [\<lparr>conversation_id = ''c1'', created_at = 1, updated_at = 2, metadata = ''{}''\<rparr>,
         \<lparr>conversation_id = ''c2'', created_at = 3, updated_at = 3, metadata = ''{}''\<rparr>],
      messages =
        [\<lparr>message_id = ''m1'', msg_conversation_id = ''c1'', role = ''human'',
          content = ''hi'', msg_created_at = 1\<rparr>,
         \<lparr>message_id = ''m2'', msg_conversation_id = ''c1'', role = ''ai'',
          content = ''hello'', msg_created_at = 2\<rparr>,
         \<lparr>message_id = ''m3'', msg_conversation_id = ''c2'', role = ''human'',
          content = ''yo'', msg_created_at = 3\<rparr>]\<rparr>"

definition example_bot :: chat_bot where
  "example_bot = \<lparr>db = Available example_tables, use_rag = False, bot_rag = example_rag\<rparr>"

section \<open>Properties of the chat history database\<close>

text \<open>
  Claim C9. \<open>delete_conversation\<close> answers False and leaves the storage as it was when
  the conversation id is not in the table; it answers True when the id is there, and
  afterwards neither the conversation row nor any message of that conversation remains,
  while the rows of every other conversation stay in place; when the storage fails
  it raises RuntimeError, which is not the answer False.
\<close>

theorem delete_conversation_outcomes:
  "(\<not> conversation_known cid t \<longrightarrow>
      delete_conversation cid (Available t) = (Inr False, Available t)) \<and>
   (conversation_known cid t \<longrightarrow>
      (\<exists>t'. delete_conversation cid (Available t) = (Inr True, Available t') \<and>
            \<not> conversation_known cid t' \<and>
            conversation_messages cid t' = [] \<and>
            (\<forall>other. other \<noteq> cid \<longrightarrow>
               conversation_messages other t' = conversation_messages other t \<and>
               conversation_known other t' = conversation_known other t))) \<and>
   delete_conversation cid Unavailable = (Inl RuntimeError, Unavailable) \<and>
   fst (delete_conversation cid Unavailable) \<noteq> Inr False"
proof (intro conjI impI)
  assume "\<not> conversation_known cid t"
  then show "delete_conversation cid (Available t) = (Inr False, Available t)"
    by (simp add: delete_conversation_def)
next
  assume known: "conversation_known cid t"
  define t' where "t' = t\<lparr>messages := filter (\<lambda>m. msg_conversation_id m \<noteq> cid) (messages t),
                          conversations := filter (\<lambda>c. conversation_id c \<noteq> cid) (conversations t)\<rparr>"
  have run: "delete_conversation cid (Available t) = (Inr True, Available t')"
    using known by (simp add: delete_conversation_def t'_def)
  have gone: "\<not> conversation_known cid t'"
    by (auto simp: conversation_known_def t'_def)
  have no_msgs: "conversation_messages cid t' = []"
    by (simp add: conversation_messages_def t'_def)
  have others: "\<forall>other. other \<noteq> cid \<longrightarrow>
        conversation_messages other t' = conversation_messages other t \<and>
        conversation_known other t' = conversation_known other t"
  proof (intro allI impI conjI)
    fix other assume ne: "other \<noteq> cid"
    have "filter (\<lambda>m. msg_conversation_id m = other)
            (filter (\<lambda>m. msg_conversation_id m \<noteq> cid) (messages t))
          = filter (\<lambda>m. msg_conversation_id m = other) (messages t)"
      using ne by (auto intro: filter_cong)
    then show "conversation_messages other t' = conversation_messages other t"
      by (simp add: conversation_messages_def t'_def)
    show "conversation_known other t' = conversation_known other t"
      using ne by (auto simp: conversation_known_def t'_def)
  qed
  from run gone no_msgs others
  show "\<exists>t'. delete_conversation cid (Available t) = (Inr True, Available t') \<and>
            \<not> conversation_known cid t' \<and>
            conversation_messages cid t' = [] \<and>
            (\<forall>other. other \<noteq> cid \<longrightarrow>
               conversation_messages other t' = conversation_messages other t \<and>
               conversation_known other t' = conversation_known other t)"
    by blast
next
  show "delete_conversation cid Unavailable = (Inl RuntimeError, Unavailable)"
    by (simp add: delete_conversation_def)
next
  show "fst (delete_conversation cid Unavailable) \<noteq> Inr False"
    by (simp add: delete_conversation_def)
qed

theorem delete_conversation_outcomes_witness:
  "delete_conversation ''c1''
     (Available \<lparr>conversations =
                   [\<lparr>conversation_id = ''c1'', created_at = 1, updated_at = 2, metadata = ''{}''\<rparr>,
                    \<lparr>conversation_id = ''c2'', created_at = 3, updated_at = 3, metadata = ''{}''\<rparr>],
                 messages =
                   [\<lparr>message_id = ''m1'', msg_conversation_id = ''c1'', role = ''human'',
                     content = ''hi'', msg_created_at = 1\<rparr>,
                    \<lparr>message_id = ''m2'', msg_conversation_id = ''c2'', role = ''human'',
                     content = ''yo'', msg_created_at = 3\<rparr>,
                    \<lparr>message_id = ''m3'', msg_conversation_id = ''c1'', role = ''ai'',
                     content = ''hello'', msg_created_at = 2\<rparr>]\<rparr>)
   = (Inr True,
      Available \<lparr>conversations =
                   [\<lparr>conversation_id = ''c2'', created_at = 3, updated_at = 3, metadata = ''{}''\<rparr>],
                 messages =
                   [\<lparr>message_id = ''m2'', msg_conversation_id = ''c2'', role = ''human'',
                     content = ''yo'', msg_created_at = 3\<rparr>]\<rparr>) \<and>
   delete_conversation ''zz''
     (Available \<lparr>conversations =
                   [\<lparr>conversation_id = ''c2'', created_at = 3, updated_at = 3, metadata = ''{}''\<rparr>],
                 messages = []\<rparr>)
   = (Inr False,
      Available \<lparr>conversations =
                   [\<lparr>conversation_id = ''c2'', created_at = 3, updated_at = 3, metadata = ''{}''\<rparr>],
                 messages = []\<rparr>)"
  using delete_conversation_outcomes [of "''c1''"
      "\<lparr>conversations =
                   [\<lparr>conversation_id = ''c1'', created_at = 1, updated_at = 2, metadata = ''{}''\<rparr>,
                    \<lparr>conversation_id = ''c2'', created_at = 3, updated_at = 3, metadata = ''{}''\<rparr>],
                 messages =
                   [\<lparr>message_id = ''m1'', msg_conversation_id = ''c1'', role = ''human'',
                     content = ''hi'', msg_created_at = 1\<rparr>,
                    \<lparr>message_id = ''m2'', msg_conversation_id = ''c2'', role = ''human'',
                     content = ''yo'', msg_created_at = 3\<rparr>,
                    \<lparr>message_id = ''m3'', msg_conversation_id = ''c1'', role = ''ai'',
                     content = ''hello'', msg_created_at = 2\<rparr>]\<rparr>"]
    delete_conversation_outcomes [of "''zz''"
      "\<lparr>conversations =
                   [\<lparr>conversation_id = ''c2'', created_at = 3, updated_at = 3, metadata = ''{}''\<rparr>],
                 messages = []\<rparr>"]
  by (simp add: delete_conversation_def conversation_known_def)

section \<open>Properties of the retriever and of answer generation\<close>

lemma rag_init_retriever_current:
  "rag_init svc k fetch_k rm_db files = Inr s \<Longrightarrow> retriever_current s"
  by (auto simp: rag_init_def retriever_current_def create_retriever_def
           split: sum.splits prod.splits)


text \<open>
  Claim C4. When the persisted vector store cannot be loaded (missing, corrupt or
  incompatible), initialisation builds an empty index whose dimension is the length of
  the embedding of the probe string \<open>__dummy__\<close> and saves it at once, so that loading
  the saved files afterwards succeeds and gives that empty index.
\<close>

theorem init_vector_store_fallback:
  assumes "load_local files = Inl e"
    and "embedder svc ''__dummy__'' = Inr v"
  shows "init_vector_store svc files =
           Inr (\<lparr>dimension = length v, entries = []\<rparr>,
                save_local \<lparr>dimension = length v, entries = []\<rparr>) \<and>
         load_local (save_local \<lparr>dimension = length v, entries = []\<rparr>) =
           Inr \<lparr>dimension = length v, entries = []\<rparr>"
  using assms
  by (simp add: init_vector_store_def load_local_def save_local_def Let_def)

theorem init_vector_store_fallback_witness:
  "load_local Corrupt = Inl RuntimeError \<and>
   init_vector_store
     \<lparr>llm = (\<lambda>_. Inr ''ok''), embedder = (\<lambda>_. Inr [1, 0, 0]),
      cross_encoder = (\<lambda>_ _. Inr 0), mmr = (\<lambda>_ _ _. []), doc_hash = page_content\<rparr> Corrupt
   = Inr (\<lparr>dimension = 3, entries = []\<rparr>, Saved \<lparr>dimension = 3, entries = []\<rparr>) \<and>
   load_local (Saved \<lparr>dimension = 3, entries = []\<rparr>) = Inr \<lparr>dimension = 3, entries = []\<rparr>"
  using init_vector_store_fallback
    [of Corrupt RuntimeError
        "\<lparr>llm = (\<lambda>_. Inr ''ok''), embedder = (\<lambda>_. Inr [1, 0, 0]),
          cross_encoder = (\<lambda>_ _. Inr 0), mmr = (\<lambda>_ _ _. []), doc_hash = page_content\<rparr>"
        "[1, 0, 0]"]
  by (simp add: load_local_def save_local_def)

text \<open>
  Claim C5. \<open>change_type_of_search\<close> sets the mode and rebuilds the retriever in the same
  call, so the retrieval that follows runs the search of the new mode; and for a RAG
  object whose retriever is current (as after construction and after every change),
  two changes in a row, the second back to the mode held at the start, give back the
  retriever configuration held at the start.
\<close>

theorem change_type_of_search_rebuilds:
  "more_diverse (change_type_of_search m1 s) = m1 \<and>
   rag_retriever (change_type_of_search m1 s) =
     (if m1 then \<lparr>search_type = MMR,
                   search_kwargs = [(''k'', param_k s), (''fetch_k'', param_fetch_k s)]\<rparr>
      else \<lparr>search_type = Similarity, search_kwargs = [(''k'', param_fetch_k s)]\<rparr>) \<and>
   retriever_invoke svc (rag_retriever (change_type_of_search m1 s)) vs q =
     (if m1 then max_marginal_relevance_search svc vs q (param_k s) (param_fetch_k s)
      else similarity_search svc vs q (param_fetch_k s)) \<and>
   (retriever_current s \<and> m2 = more_diverse s \<longrightarrow>
      rag_retriever (change_type_of_search m2 (change_type_of_search m1 s)) = rag_retriever s \<and>
      change_type_of_search m2 (change_type_of_search m1 s) = s)"
  by (auto simp: change_type_of_search_def create_retriever_def retriever_invoke_def
                 kwarg_def retriever_current_def)

lemma sequence_length: "sequence rs = Inr xs \<Longrightarrow> length xs = length rs"
  by (induction rs arbitrary: xs) (auto split: sum.splits)








theorem change_type_of_search_rebuilds_witness:
  "retriever_current example_rag \<and> more_diverse example_rag \<and>
   rag_retriever (change_type_of_search False example_rag) =
     \<lparr>search_type = Similarity, search_kwargs = [(''k'', 10)]\<rparr> \<and>
   rag_retriever (change_type_of_search True (change_type_of_search False example_rag)) =
     \<lparr>search_type = MMR, search_kwargs = [(''k'', 3), (''fetch_k'', 10)]\<rparr> \<and>
   change_type_of_search True (change_type_of_search False example_rag) = example_rag"
proof -
  have cur: "retriever_current example_rag"
    by (simp add: example_rag_def retriever_current_def create_retriever_def)
  have div: "more_diverse example_rag"
    by (simp add: example_rag_def create_retriever_def)
  have r0: "rag_retriever example_rag =
     \<lparr>search_type = MMR, search_kwargs = [(''k'', 3), (''fetch_k'', 10)]\<rparr>"
    by (simp add: example_rag_def create_retriever_def)
  have k: "param_fetch_k example_rag = 10"
    by (simp add: example_rag_def create_retriever_def)
  from change_type_of_search_rebuilds [of False example_rag _ _ _ True] cur div r0 k
  show ?thesis by simp
qed

section \<open>Properties of incremental synchronisation\<close>

lemma concat_batches: "0 < n \<Longrightarrow> concat (batches n xs) = xs"
proof (induction n xs rule: batches.induct)
  case (1 n xs)
  then show ?case by (subst batches.simps) auto
qed

lemma set_batches: "0 < n \<Longrightarrow> \<Union> (set ` set (batches n xs)) = set xs"
  using concat_batches [of n xs] by (metis set_concat)

lemma dedup_hashes:
  "h ` set (deduplicate_in_order h ds seen) = h ` set ds - set seen"
  by (induction ds arbitrary: seen) auto

lemma dedup_subset: "set (deduplicate_in_order h ds seen) \<subseteq> set ds"
  by (induction ds arbitrary: seen) auto

lemma dedup_distinct:
  "distinct (map h (deduplicate_in_order h ds seen))"
proof (induction ds arbitrary: seen)
  case Nil
  then show ?case by simp
next
  case (Cons d ds)
  have "h d \<notin> h ` set (deduplicate_in_order h ds (h d # seen))"
    by (simp add: dedup_hashes)
  with Cons show ?case by auto
qed

lemma upsert_keys: "rec_key ` set (upsert t rs kg) = insert (fst kg) (rec_key ` set rs)"
proof (cases "fst kg \<in> set (map rec_key rs)")
  case True
  have "map rec_key (map (\<lambda>r. if rec_key r = fst kg
            then r\<lparr>group_id := snd kg, rec_updated_at := t\<rparr> else r) rs) = map rec_key rs"
    by (induction rs) auto
  then have "map rec_key (upsert t rs kg) = map rec_key rs"
    using True by (simp add: upsert_def)
  then have "set (map rec_key (upsert t rs kg)) = set (map rec_key rs)" by simp
  with True show ?thesis by auto
next
  case False
  then show ?thesis by (simp add: upsert_def)
qed

lemma upsert_records:
  assumes "r \<in> set (upsert t rs kg)"
  shows "(rec_key r = fst kg \<and> rec_updated_at r = t) \<or> (r \<in> set rs \<and> rec_key r \<noteq> fst kg)"
proof (cases "fst kg \<in> set (map rec_key rs)")
  case True
  with assms show ?thesis by (auto simp: upsert_def split: if_splits)
next
  case False
  with assms have "r \<in> set rs \<or> r = \<lparr>rec_key = fst kg, group_id = snd kg, rec_updated_at = t\<rparr>"
    by (auto simp: upsert_def)
  then show ?thesis
  proof
    assume "r \<in> set rs"
    then have "rec_key r \<in> set (map rec_key rs)" by simp
    with False have "rec_key r \<noteq> fst kg" by metis
    with \<open>r \<in> set rs\<close> show ?thesis by simp
  next
    assume "r = \<lparr>rec_key = fst kg, group_id = snd kg, rec_updated_at = t\<rparr>"
    then show ?thesis by simp
  qed
qed

lemma foldl_upsert_keys:
  "rec_key ` set (foldl (upsert t) rs kgs) = rec_key ` set rs \<union> fst ` set kgs"
proof (induction kgs arbitrary: rs)
  case Nil
  then show ?case by simp
next
  case (Cons kg kgs)
  have "rec_key ` set (foldl (upsert t) (upsert t rs kg) kgs)
        = insert (fst kg) (rec_key ` set rs) \<union> fst ` set kgs"
    by (simp only: Cons.IH upsert_keys)
  then show ?case by auto
qed

lemma foldl_upsert_records:
  "r \<in> set (foldl (upsert t) rs kgs) \<Longrightarrow>
     (rec_key r \<in> fst ` set kgs \<and> rec_updated_at r = t) \<or>
     (r \<in> set rs \<and> rec_key r \<notin> fst ` set kgs)"
proof (induction kgs arbitrary: rs)
  case Nil
  then show ?case by simp
next
  case (Cons kg kgs)
  from Cons.prems have "r \<in> set (foldl (upsert t) (upsert t rs kg) kgs)" by simp
  from Cons.IH [OF this] show ?case
    by (auto dest: upsert_records)
qed

lemma fst_zip_set: "length ks = length gs \<Longrightarrow> fst ` set (zip ks gs) = set ks"
  by (metis map_fst_zip set_map)

lemma rm_update_keys:
  "length ks = length gs \<Longrightarrow> rm_keys (rm_update ks gs rm) = rm_keys rm \<union> set ks"
  by (simp add: rm_update_def rm_keys_def get_time_def Let_def foldl_upsert_keys fst_zip_set)

lemma rm_update_clock: "clock (rm_update ks gs rm) = Suc (clock rm)"
  by (simp add: rm_update_def get_time_def Let_def)

lemma rm_update_records:
  assumes "length ks = length gs" and "r \<in> set (records (rm_update ks gs rm))"
  shows "(rec_key r \<in> set ks \<and> rec_updated_at r = clock rm) \<or>
         (r \<in> set (records rm) \<and> rec_key r \<notin> set ks)"
proof -
  have "fst ` set (zip ks gs) = set ks"
    using assms(1) by (metis map_fst_zip set_map)
  moreover from assms(2) have "r \<in> set (foldl (upsert (clock rm)) (records rm) (zip ks gs))"
    by (simp add: rm_update_def get_time_def Let_def)
  ultimately show ?thesis
    using foldl_upsert_records [of r "clock rm" "records rm" "zip ks gs"] by simp
qed



lemma faiss_add_documents_entries:
  assumes "faiss_add_documents svc docs (map h docs) vs = Inr vs'"
  shows "\<exists>new. entries vs' = entries vs @ new \<and> map entry_id new = map h docs \<and>
               map entry_doc new = docs \<and> dimension vs' = dimension vs"
proof -
  from assms obtain vecs where
    vecs: "sequence (map (\<lambda>d. embedder svc (page_content d)) docs) = Inr vecs"
    and vs': "vs' = vs\<lparr>entries := entries vs @
                 map (\<lambda>(i, d, v). \<lparr>entry_id = i, entry_doc = d, entry_vector = v\<rparr>)
                   (zip (map h docs) (zip docs vecs))\<rparr>"
    by (auto simp: faiss_add_documents_def split: sum.splits if_splits)
  from vecs have len: "length vecs = length docs"
    by (auto dest: sequence_length)
  let ?new = "map (\<lambda>(i, d, v). \<lparr>entry_id = i, entry_doc = d, entry_vector = v\<rparr>)
                   (zip (map h docs) (zip docs vecs))"
  have "map entry_id ?new = map fst (zip (map h docs) (zip docs vecs))"
    by (auto simp: comp_def)
  also have "\<dots> = map h docs" using len by (simp del: map_fst_zip add: map_fst_zip)
  finally have ids: "map entry_id ?new = map h docs" .
  have "map entry_doc ?new = map (fst \<circ> snd) (zip (map h docs) (zip docs vecs))"
    by (auto simp: comp_def)
  also have "\<dots> = map fst (map snd (zip (map h docs) (zip docs vecs)))" by simp
  also have "\<dots> = map fst (zip docs vecs)" using len by (simp add: map_snd_zip)
  also have "\<dots> = docs" using len by simp
  finally have docs: "map entry_doc ?new = docs" .
  from vs' ids docs show ?thesis by auto
qed




lemma index_batch_clock:
  assumes "index_batch svc b p = Inr p'"
  shows "clock (pass_rm p) < clock (pass_rm p')"
  using assms
  by (auto simp: index_batch_def Let_def rm_update_clock split: if_splits sum.splits)

lemma index_batch_rm:
  assumes "index_batch svc b p = Inr p'"
  shows "pass_rm p' =
     rm_update (map (doc_hash svc) (deduplicate_in_order (doc_hash svc) b []))
       (map source_id (deduplicate_in_order (doc_hash svc) b []))
       (if map (doc_hash svc) (filter (\<lambda>d. doc_hash svc d \<in> rm_keys (pass_rm p))
                 (deduplicate_in_order (doc_hash svc) b [])) \<noteq> []
        then rm_update
               (map (doc_hash svc) (filter (\<lambda>d. doc_hash svc d \<in> rm_keys (pass_rm p))
                 (deduplicate_in_order (doc_hash svc) b [])))
               (map (\<lambda>_. None)
                 (map (doc_hash svc) (filter (\<lambda>d. doc_hash svc d \<in> rm_keys (pass_rm p))
                   (deduplicate_in_order (doc_hash svc) b []))))
               (pass_rm p)
        else pass_rm p)"
  using assms
  by (auto simp: index_batch_def Let_def split: if_splits sum.splits)

lemma index_batch_keys:
  assumes "index_batch svc b p = Inr p'"
  shows "rm_keys (pass_rm p') = rm_keys (pass_rm p) \<union> doc_hash svc ` set b"
proof -
  let ?h = "doc_hash svc"
  let ?hd = "deduplicate_in_order ?h b []"
  let ?refresh = "map ?h (filter (\<lambda>d. ?h d \<in> rm_keys (pass_rm p)) ?hd)"
  let ?rm1 = "if ?refresh \<noteq> [] then rm_update ?refresh (map (\<lambda>_. None) ?refresh) (pass_rm p)
              else pass_rm p"
  have hs: "set (map ?h ?hd) = ?h ` set b"
    using dedup_hashes [of ?h b "[]"] by simp
  have sub: "set ?refresh \<subseteq> rm_keys (pass_rm p)" by auto
  have k1: "rm_keys ?rm1 = rm_keys (pass_rm p)"
    using sub by (auto simp: rm_update_keys)
  have "pass_rm p' = rm_update (map ?h ?hd) (map source_id ?hd) ?rm1"
    using index_batch_rm [OF assms] .
  then have "rm_keys (pass_rm p') = rm_keys ?rm1 \<union> set (map ?h ?hd)"
    by (simp only: rm_update_keys length_map)
  with k1 hs show ?thesis by simp
qed

lemma index_batch_records:
  assumes "index_batch svc b p = Inr p'" and "r \<in> set (records (pass_rm p'))"
  shows "(rec_key r \<in> doc_hash svc ` set b \<and> clock (pass_rm p) \<le> rec_updated_at r \<and>
          rec_updated_at r < clock (pass_rm p')) \<or>
         (r \<in> set (records (pass_rm p)) \<and> rec_key r \<notin> doc_hash svc ` set b)"
proof -
  let ?h = "doc_hash svc"
  let ?hd = "deduplicate_in_order ?h b []"
  let ?refresh = "map ?h (filter (\<lambda>d. ?h d \<in> rm_keys (pass_rm p)) ?hd)"
  let ?rm1 = "if ?refresh \<noteq> [] then rm_update ?refresh (map (\<lambda>_. None) ?refresh) (pass_rm p)
              else pass_rm p"
  have hs: "set (map ?h ?hd) = ?h ` set b"
    using dedup_hashes [of ?h b "[]"] by simp
  have sub: "set ?refresh \<subseteq> ?h ` set b"
    using hs by auto
  have rm': "pass_rm p' = rm_update (map ?h ?hd) (map source_id ?hd) ?rm1"
    using index_batch_rm [OF assms(1)] .
  have c1: "clock (pass_rm p) \<le> clock ?rm1" by (simp add: rm_update_clock)
  have c2: "clock (pass_rm p') = Suc (clock ?rm1)" by (simp only: rm' rm_update_clock)
  from assms(2) rm'
  have "(rec_key r \<in> set (map ?h ?hd) \<and> rec_updated_at r = clock ?rm1) \<or>
        (r \<in> set (records ?rm1) \<and> rec_key r \<notin> set (map ?h ?hd))"
    using rm_update_records [of "map ?h ?hd" "map source_id ?hd" r ?rm1] by simp
  then show ?thesis
  proof
    assume "rec_key r \<in> set (map ?h ?hd) \<and> rec_updated_at r = clock ?rm1"
    with hs c1 c2 show ?thesis by auto
  next
    assume a: "r \<in> set (records ?rm1) \<and> rec_key r \<notin> set (map ?h ?hd)"
    then have nk: "rec_key r \<notin> ?h ` set b" using hs by simp
    have "r \<in> set (records (pass_rm p))"
    proof (cases "?refresh \<noteq> []")
      case True
      with a have "r \<in> set (records (rm_update ?refresh (map (\<lambda>_. None) ?refresh) (pass_rm p)))"
        by simp
      then have "(rec_key r \<in> set ?refresh \<and> rec_updated_at r = clock (pass_rm p)) \<or>
                 (r \<in> set (records (pass_rm p)) \<and> rec_key r \<notin> set ?refresh)"
        using rm_update_records [of ?refresh "map (\<lambda>_. None) ?refresh" r "pass_rm p"] by simp
      with nk sub show ?thesis by auto
    next
      case False
      with a show ?thesis by simp
    qed
    with nk show ?thesis by simp
  qed
qed

lemma index_batch_deleted:
  "index_batch svc b p = Inr p' \<Longrightarrow> deleted p' = deleted p"
  by (auto simp: index_batch_def Let_def split: if_splits sum.splits)

lemma index_batch_sources:
  "index_batch svc b p = Inr p' \<Longrightarrow>
     None \<notin> set (map source_id (deduplicate_in_order (doc_hash svc) b []))"
  by (auto simp: index_batch_def Let_def split: if_splits sum.splits)

lemma index_batch_entries:
  assumes "index_batch svc b p = Inr p'"
  shows "\<exists>new. entries (pass_vs p') = entries (pass_vs p) @ new \<and>
               set (map entry_id new) = doc_hash svc ` set b - rm_keys (pass_rm p) \<and>
               list_all (\<lambda>e. doc_hash svc (entry_doc e) = entry_id e) new \<and>
               set (map entry_doc new) \<subseteq> set b \<and>
               dimension (pass_vs p') = dimension (pass_vs p)"
proof -
  let ?h = "doc_hash svc"
  let ?hd = "deduplicate_in_order ?h b []"
  let ?di = "filter (\<lambda>d. ?h d \<notin> rm_keys (pass_rm p)) ?hd"
  have hs: "?h ` set ?hd = ?h ` set b"
    using dedup_hashes [of ?h b "[]"] by simp
  have di: "?h ` set ?di = ?h ` set b - rm_keys (pass_rm p)"
  proof
    show "?h ` set ?di \<subseteq> ?h ` set b - rm_keys (pass_rm p)"
      using hs by auto
    show "?h ` set b - rm_keys (pass_rm p) \<subseteq> ?h ` set ?di"
    proof
      fix k assume k: "k \<in> ?h ` set b - rm_keys (pass_rm p)"
      then have "k \<in> ?h ` set ?hd" using hs by simp
      then obtain y where "y \<in> set ?hd" "?h y = k" by auto
      with k have "y \<in> set ?di" by simp
      with \<open>?h y = k\<close> show "k \<in> ?h ` set ?di" by blast
    qed
  qed
  have sub: "set ?di \<subseteq> set b" using dedup_subset [of ?h b "[]"] by auto
  show ?thesis
  proof (cases "?di = []")
    case True
    with assms have "pass_vs p' = pass_vs p"
      by (auto simp: index_batch_def Let_def split: if_splits sum.splits)
    moreover from True di have "?h ` set b - rm_keys (pass_rm p) = {}" by simp
    ultimately show ?thesis by (intro exI [of _ "[]"]) simp
  next
    case False
    with assms have add: "faiss_add_documents svc ?di (map ?h ?di) (pass_vs p) = Inr (pass_vs p')"
      by (auto simp: index_batch_def Let_def split: if_splits sum.splits)
    from faiss_add_documents_entries [OF add] obtain new where
      new: "entries (pass_vs p') = entries (pass_vs p) @ new" "map entry_id new = map ?h ?di"
        "map entry_doc new = ?di" "dimension (pass_vs p') = dimension (pass_vs p)"
      by blast
    have ids: "set (map entry_id new) = ?h ` set b - rm_keys (pass_rm p)"
      using new(2) di by simp
    have "map (\<lambda>e. ?h (entry_doc e)) new = map ?h (map entry_doc new)"
      by (simp add: comp_def)
    also have "\<dots> = map entry_id new" by (simp only: new(2) new(3))
    finally have "\<forall>e \<in> set new. ?h (entry_doc e) = entry_id e"
      by (simp only: map_eq_conv)
    then have ok: "list_all (\<lambda>e. ?h (entry_doc e) = entry_id e) new"
      by (simp add: list_all_iff)
    have "set (map entry_doc new) \<subseteq> set b" using new(3) sub by simp
    with new ids ok show ?thesis by blast
  qed
qed

lemma index_batch_known:
  assumes "\<forall>d \<in> set b. doc_hash svc d \<in> rm_keys (pass_rm p)"
    and "None \<notin> set (map source_id (deduplicate_in_order (doc_hash svc) b []))"
  shows "\<exists>p'. index_batch svc b p = Inr p' \<and> pass_vs p' = pass_vs p \<and>
              embedded p' = embedded p \<and>
              num_added (pass_result p') = num_added (pass_result p) \<and>
              num_deleted (pass_result p') = num_deleted (pass_result p)"
proof -
  let ?h = "doc_hash svc"
  let ?hd = "deduplicate_in_order ?h b []"
  have "filter (\<lambda>d. ?h d \<notin> rm_keys (pass_rm p)) ?hd = []"
    using assms(1) dedup_subset [of ?h b "[]"] by (auto simp: filter_empty_conv)
  with assms(2) show ?thesis
    by (simp add: index_batch_def Let_def)
qed





lemma index_batches_keys:
  "index_batches svc bs p = Inr p' \<Longrightarrow>
     rm_keys (pass_rm p') = rm_keys (pass_rm p) \<union> doc_hash svc ` \<Union> (set ` set bs)"
proof (induction bs arbitrary: p)
  case Nil
  then show ?case by simp
next
  case (Cons b bs)
  from Cons.prems obtain p1 where b: "index_batch svc b p = Inr p1"
    and rest: "index_batches svc bs p1 = Inr p'"
    by (auto split: sum.splits)
  from Cons.IH [OF rest] index_batch_keys [OF b] show ?case by auto
qed

lemma index_batches_clock:
  "index_batches svc bs p = Inr p' \<Longrightarrow> clock (pass_rm p) \<le> clock (pass_rm p')"
proof (induction bs arbitrary: p)
  case Nil
  then show ?case by simp
next
  case (Cons b bs)
  from Cons.prems obtain p1 where b: "index_batch svc b p = Inr p1"
    and rest: "index_batches svc bs p1 = Inr p'"
    by (auto split: sum.splits)
  from Cons.IH [OF rest] index_batch_clock [OF b] show ?case by simp
qed

lemma index_batches_records:
  "index_batches svc bs p = Inr p' \<Longrightarrow> r \<in> set (records (pass_rm p')) \<Longrightarrow>
     (rec_key r \<in> doc_hash svc ` \<Union> (set ` set bs) \<and> clock (pass_rm p) \<le> rec_updated_at r) \<or>
     (r \<in> set (records (pass_rm p)) \<and> rec_key r \<notin> doc_hash svc ` \<Union> (set ` set bs))"
proof (induction bs arbitrary: p)
  case Nil
  then show ?case by simp
next
  case (Cons b bs)
  from Cons.prems obtain p1 where b: "index_batch svc b p = Inr p1"
    and rest: "index_batches svc bs p1 = Inr p'"
    by (auto split: sum.splits)
  have c: "clock (pass_rm p) \<le> clock (pass_rm p1)"
    using index_batch_clock [OF b] by simp
  from Cons.IH [OF rest Cons.prems(2)]
  show ?case
  proof
    assume "rec_key r \<in> doc_hash svc ` \<Union> (set ` set bs) \<and> clock (pass_rm p1) \<le> rec_updated_at r"
    with c show ?thesis by auto
  next
    assume a: "r \<in> set (records (pass_rm p1)) \<and> rec_key r \<notin> doc_hash svc ` \<Union> (set ` set bs)"
    with index_batch_records [OF b, of r] show ?thesis by auto
  qed
qed

lemma index_batches_fresh:
  "index_batches svc bs p = Inr p' \<Longrightarrow>
   \<forall>r \<in> set (records (pass_rm p)). rec_updated_at r < clock (pass_rm p) \<Longrightarrow>
   \<forall>r \<in> set (records (pass_rm p')). rec_updated_at r < clock (pass_rm p')"
proof (induction bs arbitrary: p)
  case Nil
  then show ?case by simp
next
  case (Cons b bs)
  from Cons.prems obtain p1 where b: "index_batch svc b p = Inr p1"
    and rest: "index_batches svc bs p1 = Inr p'"
    by (auto split: sum.splits)
  have "\<forall>r \<in> set (records (pass_rm p1)). rec_updated_at r < clock (pass_rm p1)"
  proof
    fix r assume "r \<in> set (records (pass_rm p1))"
    from index_batch_records [OF b this] index_batch_clock [OF b] Cons.prems(2)
    show "rec_updated_at r < clock (pass_rm p1)" by (auto simp: less_trans)
  qed
  from Cons.IH [OF rest this] show ?case .
qed

lemma index_batches_deleted:
  "index_batches svc bs p = Inr p' \<Longrightarrow> deleted p' = deleted p"
  by (induction bs arbitrary: p) (auto split: sum.splits dest: index_batch_deleted)

lemma index_batches_sources:
  "index_batches svc bs p = Inr p' \<Longrightarrow>
     \<forall>b \<in> set bs. None \<notin> set (map source_id (deduplicate_in_order (doc_hash svc) b []))"
proof (induction bs arbitrary: p)
  case Nil
  then show ?case by simp
next
  case (Cons b bs)
  from Cons.prems obtain p1 where b: "index_batch svc b p = Inr p1"
    and rest: "index_batches svc bs p1 = Inr p'"
    by (auto split: sum.splits)
  from Cons.IH [OF rest] index_batch_sources [OF b] show ?case by simp
qed

lemma index_batches_entries:
  "index_batches svc bs p = Inr p' \<Longrightarrow>
     \<exists>new. entries (pass_vs p') = entries (pass_vs p) @ new \<and>
           set (map entry_id new) = doc_hash svc ` \<Union> (set ` set bs) - rm_keys (pass_rm p) \<and>
           list_all (\<lambda>e. doc_hash svc (entry_doc e) = entry_id e) new \<and>
           set (map entry_doc new) \<subseteq> \<Union> (set ` set bs) \<and>
           dimension (pass_vs p') = dimension (pass_vs p)"
proof (induction bs arbitrary: p)
  case Nil
  then show ?case by simp
next
  case (Cons b bs)
  from Cons.prems obtain p1 where b: "index_batch svc b p = Inr p1"
    and rest: "index_batches svc bs p1 = Inr p'"
    by (auto split: sum.splits)
  from index_batch_entries [OF b] obtain n1 where
    n1: "entries (pass_vs p1) = entries (pass_vs p) @ n1"
        "set (map entry_id n1) = doc_hash svc ` set b - rm_keys (pass_rm p)"
        "list_all (\<lambda>e. doc_hash svc (entry_doc e) = entry_id e) n1"
        "set (map entry_doc n1) \<subseteq> set b"
        "dimension (pass_vs p1) = dimension (pass_vs p)"
    by blast
  from Cons.IH [OF rest] obtain n2 where
    n2: "entries (pass_vs p') = entries (pass_vs p1) @ n2"
        "set (map entry_id n2) = doc_hash svc ` \<Union> (set ` set bs) - rm_keys (pass_rm p1)"
        "list_all (\<lambda>e. doc_hash svc (entry_doc e) = entry_id e) n2"
        "set (map entry_doc n2) \<subseteq> \<Union> (set ` set bs)"
        "dimension (pass_vs p') = dimension (pass_vs p1)"
    by blast
  have k1: "rm_keys (pass_rm p1) = rm_keys (pass_rm p) \<union> doc_hash svc ` set b"
    by (rule index_batch_keys [OF b])
  have e: "entries (pass_vs p') = entries (pass_vs p) @ (n1 @ n2)"
    using n1(1) n2(1) by simp
  have ids: "set (map entry_id (n1 @ n2)) =
      doc_hash svc ` \<Union> (set ` set (b # bs)) - rm_keys (pass_rm p)"
    using n1(2) n2(2) k1 by auto
  have ok: "list_all (\<lambda>e. doc_hash svc (entry_doc e) = entry_id e) (n1 @ n2)"
    using n1(3) n2(3) by simp
  have sub: "set (map entry_doc (n1 @ n2)) \<subseteq> \<Union> (set ` set (b # bs))"
    using n1(4) n2(4) by auto
  have d: "dimension (pass_vs p') = dimension (pass_vs p)" using n1(5) n2(5) by simp
  from e ids ok sub d show ?case by blast
qed

lemma index_batches_known:
  "\<forall>b \<in> set bs. \<forall>d \<in> set b. doc_hash svc d \<in> rm_keys (pass_rm p) \<Longrightarrow>
   \<forall>b \<in> set bs. None \<notin> set (map source_id (deduplicate_in_order (doc_hash svc) b [])) \<Longrightarrow>
   \<exists>p'. index_batches svc bs p = Inr p' \<and> pass_vs p' = pass_vs p \<and>
        embedded p' = embedded p \<and> deleted p' = deleted p \<and>
        num_added (pass_result p') = num_added (pass_result p) \<and>
        num_deleted (pass_result p') = num_deleted (pass_result p)"
proof (induction bs arbitrary: p)
  case Nil
  then show ?case by simp
next
  case (Cons b bs)
  from Cons.prems have kb: "\<forall>d \<in> set b. doc_hash svc d \<in> rm_keys (pass_rm p)"
    and sb: "None \<notin> set (map source_id (deduplicate_in_order (doc_hash svc) b []))"
    by simp_all
  from index_batch_known [OF kb sb] obtain p1 where
    p1: "index_batch svc b p = Inr p1" "pass_vs p1 = pass_vs p" "embedded p1 = embedded p"
        "num_added (pass_result p1) = num_added (pass_result p)"
        "num_deleted (pass_result p1) = num_deleted (pass_result p)"
    by blast
  have d1: "deleted p1 = deleted p" by (rule index_batch_deleted [OF p1(1)])
  have "rm_keys (pass_rm p) \<subseteq> rm_keys (pass_rm p1)"
    using index_batch_keys [OF p1(1)] by simp
  with Cons.prems(1) have k': "\<forall>b \<in> set bs. \<forall>d \<in> set b. doc_hash svc d \<in> rm_keys (pass_rm p1)"
    by auto
  from Cons.prems(2) have s': "\<forall>b \<in> set bs.
      None \<notin> set (map source_id (deduplicate_in_order (doc_hash svc) b []))" by simp
  from Cons.IH [OF k' s'] obtain p' where
    "index_batches svc bs p1 = Inr p'" "pass_vs p' = pass_vs p1" "embedded p' = embedded p1"
    "deleted p' = deleted p1"
    "num_added (pass_result p') = num_added (pass_result p1)"
    "num_deleted (pass_result p') = num_deleted (pass_result p1)"
    by blast
  with p1 d1 show ?case by simp
qed




lemma list_keys_empty:
  "0 < n \<Longrightarrow> list_keys t n rm = [] \<longleftrightarrow> (\<forall>r \<in> set (records rm). \<not> rec_updated_at r < t)"
  by (auto simp: list_keys_def filter_empty_conv)

lemma full_cleanup_none:
  "\<forall>r \<in> set (records (pass_rm p)). \<not> rec_updated_at r < t \<Longrightarrow> full_cleanup t p = Inr p"
  by (subst full_cleanup.simps) (simp add: list_keys_empty)

lemma list_keys_stale: "set (list_keys t n rm) \<subseteq> stale_keys t rm"
  by (auto simp: list_keys_def stale_keys_def dest!: in_set_takeD)

lemma stale_keys_delete:
  "stale_keys t (delete_keys ks rm) = stale_keys t rm - set ks"
  by (auto simp: stale_keys_def delete_keys_def)

lemma full_cleanup_result:
  "full_cleanup t p = Inr p' \<Longrightarrow>
     records (pass_rm p') = filter (\<lambda>r. rec_key r \<notin> stale_keys t (pass_rm p)) (records (pass_rm p)) \<and>
     clock (pass_rm p') = clock (pass_rm p) \<and>
     entries (pass_vs p') = filter (\<lambda>e. entry_id e \<notin> stale_keys t (pass_rm p)) (entries (pass_vs p)) \<and>
     dimension (pass_vs p') = dimension (pass_vs p) \<and>
     set (deleted p') = set (deleted p) \<union> stale_keys t (pass_rm p) \<and>
     embedded p' = embedded p \<and>
     stale_keys t (pass_rm p) \<subseteq> set (map entry_id (entries (pass_vs p))) \<and>
     (\<forall>r \<in> set (records (pass_rm p')). \<not> rec_updated_at r < t)"
proof (induction t p rule: full_cleanup.induct)
  case (1 t p)
  let ?ks = "list_keys t 1000 (pass_rm p)"
  show ?case
  proof (cases "?ks = []")
    case True
    then have none: "\<forall>r \<in> set (records (pass_rm p)). \<not> rec_updated_at r < t"
      by (simp add: list_keys_empty)
    then have st: "stale_keys t (pass_rm p) = {}" by (auto simp: stale_keys_def)
    from True "1.prems" have "p' = p" by (subst (asm) full_cleanup.simps) simp
    with none st show ?thesis by simp
  next
    case False
    from False "1.prems" obtain vs' where
      del: "faiss_delete ?ks (pass_vs p) = Inr vs'"
      and rest: "full_cleanup t
                    (p\<lparr>pass_vs := vs',
                       pass_rm := delete_keys ?ks (pass_rm p),
                       pass_result := (pass_result p)
                         \<lparr>num_deleted := num_deleted (pass_result p) + length ?ks\<rparr>,
                       deleted := deleted p @ ?ks\<rparr>) = Inr p'"
      by (subst (asm) full_cleanup.simps) (auto simp: Let_def split: sum.splits)
    let ?p1 = "p\<lparr>pass_vs := vs',
                       pass_rm := delete_keys ?ks (pass_rm p),
                       pass_result := (pass_result p)
                         \<lparr>num_deleted := num_deleted (pass_result p) + length ?ks\<rparr>,
                       deleted := deleted p @ ?ks\<rparr>"
    from del have in_vs: "set ?ks \<subseteq> set (map entry_id (entries (pass_vs p)))"
      and vs': "vs' = (pass_vs p)\<lparr>entries := filter (\<lambda>e. entry_id e \<notin> set ?ks) (entries (pass_vs p))\<rparr>"
      by (auto simp: faiss_delete_def split: if_splits)
    have sub: "set ?ks \<subseteq> stale_keys t (pass_rm p)" by (rule list_keys_stale)
    have s1: "stale_keys t (pass_rm ?p1) = stale_keys t (pass_rm p) - set ?ks"
      by (simp add: stale_keys_delete)
    from "1.IH" [OF refl False del rest]
    have ih: "records (pass_rm p') = filter (\<lambda>r. rec_key r \<notin> stale_keys t (pass_rm ?p1)) (records (pass_rm ?p1))"
      "clock (pass_rm p') = clock (pass_rm ?p1)"
      "entries (pass_vs p') = filter (\<lambda>e. entry_id e \<notin> stale_keys t (pass_rm ?p1)) (entries (pass_vs ?p1))"
      "dimension (pass_vs p') = dimension (pass_vs ?p1)"
      "set (deleted p') = set (deleted ?p1) \<union> stale_keys t (pass_rm ?p1)"
      "embedded p' = embedded ?p1"
      "stale_keys t (pass_rm ?p1) \<subseteq> set (map entry_id (entries (pass_vs ?p1)))"
      "\<forall>r \<in> set (records (pass_rm p')). \<not> rec_updated_at r < t"
      by blast+
    have a: "records (pass_rm p') = filter (\<lambda>r. rec_key r \<notin> stale_keys t (pass_rm p)) (records (pass_rm p))"
      using ih(1) sub unfolding s1 by (auto simp: delete_keys_def intro: filter_cong)
    have b: "clock (pass_rm p') = clock (pass_rm p)"
      using ih(2) by (simp add: delete_keys_def)
    have c: "entries (pass_vs p') = filter (\<lambda>e. entry_id e \<notin> stale_keys t (pass_rm p)) (entries (pass_vs p))"
      using ih(3) sub unfolding s1 by (auto simp: vs' intro: filter_cong)
    have d: "dimension (pass_vs p') = dimension (pass_vs p)"
      using ih(4) by (simp add: vs')
    have e: "set (deleted p') = set (deleted p) \<union> stale_keys t (pass_rm p)"
      using ih(5) sub unfolding s1 by auto
    have f: "embedded p' = embedded p" using ih(6) by simp
    have g: "stale_keys t (pass_rm p) \<subseteq> set (map entry_id (entries (pass_vs p)))"
    proof
      fix k assume k: "k \<in> stale_keys t (pass_rm p)"
      show "k \<in> set (map entry_id (entries (pass_vs p)))"
      proof (cases "k \<in> set ?ks")
        case True
        with in_vs show ?thesis by blast
      next
        case False
        with k have "k \<in> stale_keys t (pass_rm ?p1)" unfolding s1 by simp
        with ih(7) have "k \<in> set (map entry_id (entries (pass_vs ?p1)))" by blast
        then show ?thesis by (auto simp: vs')
      qed
    qed
    from a b c d e f g ih(8) show ?thesis by blast
  qed
qed




lemma index_steps:
  assumes "index svc docs rm vs = Inr p"
  obtains pb where
    "index_batches svc (batches 100 docs)
       \<lparr>pass_rm = rm\<lparr>clock := Suc (clock rm)\<rparr>, pass_vs = vs,
        pass_result = \<lparr>num_added = 0, num_updated = 0, num_skipped = 0, num_deleted = 0\<rparr>,
        embedded = [], deleted = []\<rparr> = Inr pb"
    "full_cleanup (clock rm) pb = Inr p"
  using assms by (auto simp: index_def get_time_def Let_def split: sum.splits)

lemma index_pass:
  assumes wf: "\<forall>r \<in> set (records rm). rec_updated_at r < clock rm"
    and run: "index svc docs rm vs = Inr p"
  shows "rm_keys (pass_rm p) = doc_hash svc ` set docs"
    and "\<forall>r \<in> set (records (pass_rm p)). rec_updated_at r < clock (pass_rm p)"
    and "set (deleted p) = rm_keys rm - doc_hash svc ` set docs"
    and "\<exists>new. entries (pass_vs p) =
            filter (\<lambda>e. entry_id e \<notin> rm_keys rm - doc_hash svc ` set docs) (entries vs) @ new \<and>
            set (map entry_id new) = doc_hash svc ` set docs - rm_keys rm \<and>
            list_all (\<lambda>e. doc_hash svc (entry_doc e) = entry_id e) new \<and>
            set (map entry_doc new) \<subseteq> set docs"
    and "dimension (pass_vs p) = dimension vs"
    and "\<forall>b \<in> set (batches 100 docs).
           None \<notin> set (map source_id (deduplicate_in_order (doc_hash svc) b []))"
    and "rm_keys rm - doc_hash svc ` set docs \<subseteq> set (map entry_id (entries vs))"
proof -
  let ?h = "doc_hash svc"
  let ?t0 = "clock rm"
  let ?p0 = "\<lparr>pass_rm = rm\<lparr>clock := Suc (clock rm)\<rparr>, pass_vs = vs,
        pass_result = \<lparr>num_added = 0, num_updated = 0, num_skipped = 0, num_deleted = 0\<rparr>,
        embedded = [], deleted = []\<rparr>"
  from run obtain pb where
    bs: "index_batches svc (batches 100 docs) ?p0 = Inr pb"
    and cl: "full_cleanup ?t0 pb = Inr p"
    by (rule index_steps)
  have D: "\<Union> (set ` set (batches 100 docs)) = set docs"
    by (rule set_batches) simp
  have k0: "rm_keys (pass_rm ?p0) = rm_keys rm" by (simp add: rm_keys_def)
  have kb: "rm_keys (pass_rm pb) = rm_keys rm \<union> ?h ` set docs"
    using index_batches_keys [OF bs] D k0 by simp
  have rb: "(rec_key r \<in> ?h ` set docs \<and> Suc ?t0 \<le> rec_updated_at r) \<or>
            (r \<in> set (records rm) \<and> rec_key r \<notin> ?h ` set docs)"
    if "r \<in> set (records (pass_rm pb))" for r
    using index_batches_records [OF bs that] D by simp
  have wf0: "\<forall>r \<in> set (records (pass_rm ?p0)). rec_updated_at r < clock (pass_rm ?p0)"
    using wf by (auto simp: less_Suc_eq)
  have wfb: "\<forall>r \<in> set (records (pass_rm pb)). rec_updated_at r < clock (pass_rm pb)"
    by (rule index_batches_fresh [OF bs wf0])
  have stale: "stale_keys ?t0 (pass_rm pb) = rm_keys rm - ?h ` set docs"
  proof
    show "stale_keys ?t0 (pass_rm pb) \<subseteq> rm_keys rm - ?h ` set docs"
    proof
      fix k assume "k \<in> stale_keys ?t0 (pass_rm pb)"
      then obtain r where r: "r \<in> set (records (pass_rm pb))" "rec_updated_at r < ?t0" "rec_key r = k"
        by (auto simp: stale_keys_def)
      from rb [OF r(1)] r(2) have "r \<in> set (records rm) \<and> rec_key r \<notin> ?h ` set docs" by auto
      with r(3) show "k \<in> rm_keys rm - ?h ` set docs" by (auto simp: rm_keys_def)
    qed
    show "rm_keys rm - ?h ` set docs \<subseteq> stale_keys ?t0 (pass_rm pb)"
    proof
      fix k assume k: "k \<in> rm_keys rm - ?h ` set docs"
      with kb have "k \<in> rm_keys (pass_rm pb)" by simp
      then obtain r where r: "r \<in> set (records (pass_rm pb))" "rec_key r = k"
        by (auto simp: rm_keys_def)
      from rb [OF r(1)] k r(2) have "r \<in> set (records rm)" by auto
      with wf have "rec_updated_at r < ?t0" by simp
      with r show "k \<in> stale_keys ?t0 (pass_rm pb)" by (auto simp: stale_keys_def)
    qed
  qed
  from full_cleanup_result [OF cl] have
    c1: "records (pass_rm p) = filter (\<lambda>r. rec_key r \<notin> stale_keys ?t0 (pass_rm pb)) (records (pass_rm pb))"
    and c2: "clock (pass_rm p) = clock (pass_rm pb)"
    and c3: "entries (pass_vs p) = filter (\<lambda>e. entry_id e \<notin> stale_keys ?t0 (pass_rm pb)) (entries (pass_vs pb))"
    and c4: "dimension (pass_vs p) = dimension (pass_vs pb)"
    and c5: "set (deleted p) = set (deleted pb) \<union> stale_keys ?t0 (pass_rm pb)"
    and c7: "stale_keys ?t0 (pass_rm pb) \<subseteq> set (map entry_id (entries (pass_vs pb)))"
    by blast+
  have "rm_keys (pass_rm p) = rm_keys (pass_rm pb) - stale_keys ?t0 (pass_rm pb)"
    unfolding c1 rm_keys_def by auto
  with kb stale show "rm_keys (pass_rm p) = ?h ` set docs" by auto
  show "\<forall>r \<in> set (records (pass_rm p)). rec_updated_at r < clock (pass_rm p)"
    using wfb unfolding c1 c2 by auto
  have "deleted pb = []" using index_batches_deleted [OF bs] by simp
  with c5 stale show "set (deleted p) = rm_keys rm - ?h ` set docs" by simp
  from index_batches_entries [OF bs] obtain new where
    new: "entries (pass_vs pb) = entries vs @ new"
         "set (map entry_id new) = ?h ` set docs - rm_keys rm"
         "list_all (\<lambda>e. ?h (entry_doc e) = entry_id e) new"
         "set (map entry_doc new) \<subseteq> set docs"
         "dimension (pass_vs pb) = dimension vs"
    using D k0 by auto
  have "filter (\<lambda>e. entry_id e \<notin> rm_keys rm - ?h ` set docs) new = new"
    using new(2) by (auto simp: filter_id_conv)
  with c3 stale new(1)
  have "entries (pass_vs p) = filter (\<lambda>e. entry_id e \<notin> rm_keys rm - ?h ` set docs) (entries vs) @ new"
    by simp
  with new(2,3,4)
  show "\<exists>new. entries (pass_vs p) =
            filter (\<lambda>e. entry_id e \<notin> rm_keys rm - ?h ` set docs) (entries vs) @ new \<and>
            set (map entry_id new) = ?h ` set docs - rm_keys rm \<and>
            list_all (\<lambda>e. ?h (entry_doc e) = entry_id e) new \<and>
            set (map entry_doc new) \<subseteq> set docs"
    by blast
  show "dimension (pass_vs p) = dimension vs" using c4 new(5) by simp
  show "\<forall>b \<in> set (batches 100 docs).
           None \<notin> set (map source_id (deduplicate_in_order ?h b []))"
    by (rule index_batches_sources [OF bs])
  show "rm_keys rm - ?h ` set docs \<subseteq> set (map entry_id (entries vs))"
  proof
    fix k assume k: "k \<in> rm_keys rm - ?h ` set docs"
    with c7 stale have "k \<in> set (map entry_id (entries (pass_vs pb)))" by blast
    with new(1) have "k \<in> set (map entry_id (entries vs)) \<or> k \<in> set (map entry_id new)" by auto
    with new(2) k show "k \<in> set (map entry_id (entries vs))" by auto
  qed
qed

lemma index_again:
  assumes keys: "rm_keys rm = doc_hash svc ` set docs"
    and src: "\<forall>b \<in> set (batches 100 docs).
           None \<notin> set (map source_id (deduplicate_in_order (doc_hash svc) b []))"
  shows "\<exists>p. index svc docs rm vs = Inr p \<and> pass_vs p = vs \<and> embedded p = [] \<and>
             deleted p = [] \<and> num_added (pass_result p) = 0 \<and>
             num_deleted (pass_result p) = 0 \<and> rm_keys (pass_rm p) = rm_keys rm"
proof -
  let ?h = "doc_hash svc"
  let ?p0 = "\<lparr>pass_rm = rm\<lparr>clock := Suc (clock rm)\<rparr>, pass_vs = vs,
        pass_result = \<lparr>num_added = 0, num_updated = 0, num_skipped = 0, num_deleted = 0\<rparr>,
        embedded = [], deleted = []\<rparr>"
  have D: "\<Union> (set ` set (batches 100 docs)) = set docs"
    by (rule set_batches) simp
  have k0: "rm_keys (pass_rm ?p0) = rm_keys rm" by (simp add: rm_keys_def)
  have known: "\<forall>b \<in> set (batches 100 docs). \<forall>d \<in> set b. ?h d \<in> rm_keys (pass_rm ?p0)"
    using D keys k0 by auto
  from index_batches_known [OF known src] obtain pb where
    pb: "index_batches svc (batches 100 docs) ?p0 = Inr pb" "pass_vs pb = vs"
        "embedded pb = []" "deleted pb = []"
        "num_added (pass_result pb) = 0" "num_deleted (pass_result pb) = 0"
    by auto
  have kb: "rm_keys (pass_rm pb) = rm_keys rm"
    using index_batches_keys [OF pb(1)] D k0 keys by simp
  have fresh: "\<forall>r \<in> set (records (pass_rm pb)). \<not> rec_updated_at r < clock rm"
  proof
    fix r assume r: "r \<in> set (records (pass_rm pb))"
    from index_batches_records [OF pb(1) r]
    have "(rec_key r \<in> ?h ` set docs \<and> Suc (clock rm) \<le> rec_updated_at r) \<or>
          (r \<in> set (records rm) \<and> rec_key r \<notin> ?h ` set docs)"
      using D by simp
    moreover have "rec_key r \<in> ?h ` set docs" if "r \<in> set (records rm)"
      using that keys by (auto simp: rm_keys_def)
    ultimately show "\<not> rec_updated_at r < clock rm" by auto
  qed
  have "full_cleanup (clock rm) pb = Inr pb" by (rule full_cleanup_none [OF fresh])
  with pb(1) have "index svc docs rm vs = Inr pb"
    by (simp add: index_def get_time_def Let_def)
  with pb kb show ?thesis by blast
qed


text \<open>
  Claim C2. When a call of \<open>add_documents\<close> has completed, a second call with the same
  documents completes too, sends no text to the embedding model, deletes nothing, and
  leaves the vector store and its saved copy as the first call left them; the record
  manager keeps the same keys. (The record manager must not hold records stamped in the
  future of its clock, which no pass produces.)
\<close>

theorem add_documents_idempotent:
  assumes wf: "list_all (\<lambda>r. rec_updated_at r < clock (rag_record_manager s))
                 (records (rag_record_manager s))"
    and first: "add_documents svc documents s = Inr (s1, r1)"
  shows "\<exists>s2 r2. add_documents svc documents s1 = Inr (s2, r2) \<and>
           texts_embedded r2 = [] \<and> ids_deleted r2 = [] \<and>
           vector_store s2 = vector_store s1 \<and>
           store_on_disk s2 = store_on_disk s1 \<and>
           rm_keys (rag_record_manager s2) = rm_keys (rag_record_manager s1)"
proof (cases "documents = []")
  case True
  with first have "s1 = s" by (simp add: add_documents_def)
  with True show ?thesis
    by (simp add: add_documents_def texts_embedded_def ids_deleted_def)
next
  case False
  with first obtain chunks p1 where
    sp: "split_documents documents 1000 200 = Inr chunks"
    and ix: "index svc chunks (rag_record_manager s) (vector_store s) = Inr p1"
    and s1: "s1 = s\<lparr>rag_record_manager := pass_rm p1, vector_store := pass_vs p1,
                     store_on_disk := save_local (pass_vs p1)\<rparr>"
    by (auto simp: add_documents_def split: sum.splits)
  from wf have wf': "\<forall>r \<in> set (records (rag_record_manager s)).
      rec_updated_at r < clock (rag_record_manager s)"
    by (simp add: list_all_iff)
  have keys: "rm_keys (pass_rm p1) = doc_hash svc ` set chunks"
    by (rule index_pass(1) [OF wf' ix])
  have src: "\<forall>b \<in> set (batches 100 chunks).
           None \<notin> set (map source_id (deduplicate_in_order (doc_hash svc) b []))"
    by (rule index_pass(6) [OF wf' ix])
  from index_again [OF keys src, of "pass_vs p1"] obtain p2 where
    p2: "index svc chunks (pass_rm p1) (pass_vs p1) = Inr p2" "pass_vs p2 = pass_vs p1"
        "embedded p2 = []" "deleted p2 = []" "rm_keys (pass_rm p2) = rm_keys (pass_rm p1)"
    by blast
  have "add_documents svc documents s1 =
      Inr (s1\<lparr>rag_record_manager := pass_rm p2, vector_store := pass_vs p2,
               store_on_disk := save_local (pass_vs p2)\<rparr>, Some p2)"
    using False sp p2(1) by (simp add: add_documents_def s1)
  with p2 s1 show ?thesis
    by (simp add: texts_embedded_def ids_deleted_def)
qed

theorem add_documents_idempotent_witness:
  "texts_embedded (snd (projr (add_documents example_services example_docs example_empty))) =
     [''Alpha text.'', ''Beta text.''] \<and>
   texts_embedded (snd (projr (add_documents example_services example_docs example_indexed))) = [] \<and>
   ids_deleted (snd (projr (add_documents example_services example_docs example_indexed))) = [] \<and>
   vector_store (fst (projr (add_documents example_services example_docs example_indexed))) =
     vector_store example_indexed \<and>
   store_on_disk (fst (projr (add_documents example_services example_docs example_indexed))) =
     store_on_disk example_indexed"
proof -
  let ?X = "add_documents example_services example_docs example_empty"
  have wf: "list_all (\<lambda>r. rec_updated_at r < clock (rag_record_manager example_empty))
              (records (rag_record_manager example_empty))"
    by (simp add: example_empty_def create_retriever_def)
  have "\<not> isl ?X" by code_simp
  then have first: "?X = Inr (example_indexed, snd (projr ?X))"
    by (cases ?X) (simp_all add: example_indexed_def)
  have e1: "texts_embedded (snd (projr ?X)) = [''Alpha text.'', ''Beta text.'']"
    by code_simp
  from add_documents_idempotent [OF wf first] e1
  show ?thesis by auto
qed




section \<open>Properties of document loading\<close>

lemma load_loop_concat:
  "load_loop fs dir names acc =
     acc @ concat (map (\<lambda>n. case loadable fs dir n of None \<Rightarrow> [] | Some ds \<Rightarrow> ds) names)"
  by (induction names arbitrary: acc)
     (auto simp: loadable_def Let_def split: option.splits sum.splits)

text \<open>
  Claim C8. For a path that exists and is a directory, \<open>load_documents_from_directory\<close>
  never raises: it returns, in listing order, the documents of exactly those entries
  that are regular files with a supported extension and that their loader parses; every
  other entry (a subdirectory, an unsupported extension, a file whose loader raises)
  contributes nothing and does not stop the loop.
\<close>

theorem load_documents_skips_failures:
  assumes "path_exists fs dir" and "isdir fs dir"
  shows "load_documents_from_directory fs dir =
           Inr (concat (map (\<lambda>n. case loadable fs dir n of None \<Rightarrow> [] | Some ds \<Rightarrow> ds)
                          (listdir fs dir))) \<and>
         (\<forall>n ds. loadable fs dir n = Some ds \<longleftrightarrow>
            isfile fs (path_join dir n) \<and>
            lower (snd (splitext n)) \<in> set get_supported_extensions \<and>
            (\<exists>l. map_of LOADER_CONFIGS (lower (snd (splitext n))) = Some l \<and>
                 load_file fs l (path_join dir n) = Inr ds))"
proof
  show "load_documents_from_directory fs dir =
           Inr (concat (map (\<lambda>n. case loadable fs dir n of None \<Rightarrow> [] | Some ds \<Rightarrow> ds)
                          (listdir fs dir)))"
    using assms by (simp add: load_documents_from_directory_def load_loop_concat)
  show "\<forall>n ds. loadable fs dir n = Some ds \<longleftrightarrow>
            isfile fs (path_join dir n) \<and>
            lower (snd (splitext n)) \<in> set get_supported_extensions \<and>
            (\<exists>l. map_of LOADER_CONFIGS (lower (snd (splitext n))) = Some l \<and>
                 load_file fs l (path_join dir n) = Inr ds)"
  proof (intro allI)
    fix n ds
    have sup: "lower (snd (splitext n)) \<in> set get_supported_extensions"
      if "map_of LOADER_CONFIGS (lower (snd (splitext n))) = Some l" for l
      using map_of_SomeD [OF that] by (force simp: get_supported_extensions_def)
    show "loadable fs dir n = Some ds \<longleftrightarrow>
            isfile fs (path_join dir n) \<and>
            lower (snd (splitext n)) \<in> set get_supported_extensions \<and>
            (\<exists>l. map_of LOADER_CONFIGS (lower (snd (splitext n))) = Some l \<and>
                 load_file fs l (path_join dir n) = Inr ds)"
      using sup by (auto simp: loadable_def split: option.splits sum.splits if_splits)
  qed
qed

theorem load_documents_skips_failures_witness:
  "load_documents_from_directory example_fs ''data/documents'' =
     Inr [mk_doc ''Alpha text.'' ''data/documents/a.txt'', mk_doc ''Delta'' ''data/documents/d.MD'']"
proof -
  have e: "path_exists example_fs ''data/documents''" "isdir example_fs ''data/documents''"
    by (simp_all add: example_fs_def)
  have l: "map (\<lambda>n. case loadable example_fs ''data/documents'' n of None \<Rightarrow> [] | Some ds \<Rightarrow> ds)
             (listdir example_fs ''data/documents'') =
           [[mk_doc ''Alpha text.'' ''data/documents/a.txt''], [], [], [],
            [mk_doc ''Delta'' ''data/documents/d.MD'']]"
    by code_simp
  from load_documents_skips_failures [OF e] l show ?thesis by simp
qed

section \<open>Properties of the chat bot\<close>

lemma insort_key_snoc:
  "f x \<le> f a \<Longrightarrow> insort_key f x (ys @ [a]) = insort_key f x ys @ [a]"
  by (induction ys) auto

lemma foldr_insort_snoc:
  "\<forall>x \<in> set xs. f x \<le> f a \<Longrightarrow>
     foldr (insort_key f) xs [a] = foldr (insort_key f) xs [] @ [a]"
  by (induction xs) (auto simp: insort_key_snoc)

lemma sort_key_snoc:
  "\<forall>x \<in> set xs. f x \<le> f a \<Longrightarrow> sort_key f (xs @ [a]) = sort_key f xs @ [a]"
  by (simp add: sort_key_def foldr_insort_snoc)

lemma save_message_ok:
  assumes "save_message cid r c mid now st = (Inr u, st')"
  shows "\<exists>t t'. st = Available t \<and> st' = Available t' \<and>
           messages t' = messages t @
             [\<lparr>message_id = mid, msg_conversation_id = cid, role = r, content = c,
               msg_created_at = now\<rparr>]"
  using assms
  by (cases st) (auto simp: save_message_def Let_def split: if_splits)

lemma map_filter_append:
  "List.map_filter f (xs @ ys) = List.map_filter f xs @ List.map_filter f ys"
  by (simp add: List.map_filter_def)

text \<open>
  Claim C10. A call of \<open>chat\<close> that returns a response, with or without RAG, has appended
  exactly two rows to the messages table, the human query and then the ai response, both
  under the addressed conversation; the rows and the history of every other
  conversation are unchanged; and when the clock readings of the two saves are not
  earlier than the stamps already stored for the conversation, its history read back is
  the old history followed by the query and the response.
\<close>

theorem chat_appends_two_messages:
  assumes run: "chat svc query cid (mid1, now1) (mid2, now2) self = (Inr response, self')"
  shows "\<exists>t t'. db self = Available t \<and> db self' = Available t' \<and>
           messages t' = messages t @
             [\<lparr>message_id = mid1, msg_conversation_id = cid, role = ''human'', content = query,
               msg_created_at = now1\<rparr>,
              \<lparr>message_id = mid2, msg_conversation_id = cid, role = ''ai'', content = response,
               msg_created_at = now2\<rparr>] \<and>
           conversation_messages cid t' = conversation_messages cid t @
             [\<lparr>message_id = mid1, msg_conversation_id = cid, role = ''human'', content = query,
               msg_created_at = now1\<rparr>,
              \<lparr>message_id = mid2, msg_conversation_id = cid, role = ''ai'', content = response,
               msg_created_at = now2\<rparr>] \<and>
           (\<forall>other. other \<noteq> cid \<longrightarrow>
              conversation_messages other t' = conversation_messages other t \<and>
              get_conversation_history other (db self') = get_conversation_history other (db self)) \<and>
           ((\<forall>m \<in> set (conversation_messages cid t). msg_created_at m \<le> now1) \<and> now1 \<le> now2 \<longrightarrow>
              (\<exists>h. get_conversation_history cid (db self) = Inr h \<and>
                   get_conversation_history cid (db self') =
                     Inr (h @ [HumanMessage query, AIMessage response]))) \<and>
           use_rag self' = use_rag self \<and> bot_rag self' = bot_rag self"
proof -
  let ?m1 = "\<lparr>message_id = mid1, msg_conversation_id = cid, role = ''human'', content = query,
               msg_created_at = now1\<rparr>"
  let ?m2 = "\<lparr>message_id = mid2, msg_conversation_id = cid, role = ''ai'', content = response,
               msg_created_at = now2\<rparr>"
  from run obtain st1 st2 u1 u2 where
    s1: "save_message cid ''human'' query mid1 now1 (db self) = (Inr u1, st1)"
    and s2: "save_message cid ''ai'' response mid2 now2 st1 = (Inr u2, st2)"
    and self': "self' = self\<lparr>db := st2\<rparr>"
    by (auto simp: chat_def Let_def split: sum.splits prod.splits)
  from save_message_ok [OF s1] obtain t t1 where
    t: "db self = Available t" "st1 = Available t1" "messages t1 = messages t @ [?m1]"
    by blast
  from save_message_ok [OF s2] t(2) obtain t' where
    t': "st2 = Available t'" "messages t' = messages t1 @ [?m2]"
    by auto
  have msgs: "messages t' = messages t @ [?m1, ?m2]" using t(3) t'(2) by simp
  have own: "conversation_messages cid t' = conversation_messages cid t @ [?m1, ?m2]"
    by (simp add: conversation_messages_def msgs)
  have others: "conversation_messages other t' = conversation_messages other t"
    if "other \<noteq> cid" for other
    using that by (simp add: conversation_messages_def msgs)
  have hist_others: "get_conversation_history other (db self') = get_conversation_history other (db self)"
    if "other \<noteq> cid" for other
    using others [OF that] by (simp add: get_conversation_history_def self' t(1) t'(1))
  have hist_own: "\<exists>h. get_conversation_history cid (db self) = Inr h \<and>
                   get_conversation_history cid (db self') =
                     Inr (h @ [HumanMessage query, AIMessage response])"
    if mono: "(\<forall>m \<in> set (conversation_messages cid t). msg_created_at m \<le> now1) \<and> now1 \<le> now2"
  proof -
    let ?xs = "conversation_messages cid t"
    have a: "sort_key msg_created_at (?xs @ [?m1]) = sort_key msg_created_at ?xs @ [?m1]"
      using mono by (intro sort_key_snoc) simp
    have "\<forall>x \<in> set (?xs @ [?m1]). msg_created_at x \<le> msg_created_at ?m2"
      using mono by auto
    then have b: "sort_key msg_created_at ((?xs @ [?m1]) @ [?m2]) =
                  sort_key msg_created_at (?xs @ [?m1]) @ [?m2]"
      by (rule sort_key_snoc)
    have "sort_key msg_created_at (conversation_messages cid t') =
          sort_key msg_created_at ?xs @ [?m1, ?m2]"
      using a b by (simp add: own)
    then show ?thesis
      by (simp add: get_conversation_history_def self' t(1) t'(1) map_filter_append)
         (simp add: List.map_filter_def to_message_def)
  qed
  from t(1) t'(1) msgs own others hist_others hist_own self' show ?thesis
    by auto
qed





theorem chat_appends_two_messages_witness:
  "get_conversation_history ''c1''
     (db (snd (chat example_services ''What?'' ''c1'' (''u1'', 10) (''u2'', 11) example_bot))) =
     Inr [HumanMessage ''hi'', AIMessage ''hello'', HumanMessage ''What?'', AIMessage ''answer''] \<and>
   get_conversation_history ''c2''
     (db (snd (chat example_services ''What?'' ''c1'' (''u1'', 10) (''u2'', 11) example_bot))) =
     Inr [HumanMessage ''yo'']"
proof -
  let ?run = "chat example_services ''What?'' ''c1'' (''u1'', 10) (''u2'', 11) example_bot"
  have hist: "get_conversation_history ''c1'' (db example_bot) =
                Inr [HumanMessage ''hi'', AIMessage ''hello'']"
    by (simp add: get_conversation_history_def example_bot_def example_tables_def
          conversation_messages_def List.map_filter_def to_message_def)
  have hist2: "get_conversation_history ''c2'' (db example_bot) = Inr [HumanMessage ''yo'']"
    by (simp add: get_conversation_history_def example_bot_def example_tables_def
          conversation_messages_def List.map_filter_def to_message_def)
  have "fst ?run = Inr ''answer''"
    by (simp add: chat_def get_conversation_history_def conversation_messages_def
          List.map_filter_def to_message_def Let_def example_bot_def example_services_def
          save_message_def example_tables_def conversation_known_def)
  then have run: "?run = (Inr ''answer'', snd ?run)" by (cases ?run) simp
  from chat_appends_two_messages [OF run] obtain t t' where
    f: "db example_bot = Available t"
       "\<forall>other. other \<noteq> ''c1'' \<longrightarrow>
          conversation_messages other t' = conversation_messages other t \<and>
          get_conversation_history other (db (snd ?run)) =
          get_conversation_history other (db example_bot)"
       "(\<forall>m \<in> set (conversation_messages ''c1'' t). msg_created_at m \<le> 10) \<and> (10::nat) \<le> 11 \<longrightarrow>
          (\<exists>h. get_conversation_history ''c1'' (db example_bot) = Inr h \<and>
               get_conversation_history ''c1'' (db (snd ?run)) =
                 Inr (h @ [HumanMessage ''What?'', AIMessage ''answer'']))"
    by blast
  from f(1) have t: "t = example_tables" by (simp add: example_bot_def)
  have "\<forall>m \<in> set (conversation_messages ''c1'' t). msg_created_at m \<le> 10"
    by (simp add: t example_tables_def conversation_messages_def)
  with f(3) hist have own: "get_conversation_history ''c1'' (db (snd ?run)) =
      Inr [HumanMessage ''hi'', AIMessage ''hello'', HumanMessage ''What?'', AIMessage ''answer'']"
    by auto
  have "''c2'' \<noteq> ''c1''" by simp
  with f(2) hist2 have "get_conversation_history ''c2'' (db (snd ?run)) = Inr [HumanMessage ''yo'']"
    by metis
  with own show ?thesis by simp
qed

lemma count_append:
  "count_tokens_approximately (xs @ ys) =
     count_tokens_approximately xs + count_tokens_approximately ys"
  by (simp add: count_tokens_approximately_def)

lemma count_rev: "count_tokens_approximately (rev xs) = count_tokens_approximately xs"
  by (induction xs) (simp_all add: count_tokens_approximately_def)

lemma count_dropWhile:
  "count_tokens_approximately (dropWhile P xs) \<le> count_tokens_approximately xs"
proof -
  have "count_tokens_approximately xs =
        count_tokens_approximately (takeWhile P xs) + count_tokens_approximately (dropWhile P xs)"
    by (metis count_append takeWhile_dropWhile_id)
  then show ?thesis by simp
qed

lemma largest_fit_le: "largest_fit c mx ms n \<le> n"
  by (induction n) auto

lemma largest_fit_fits:
  "c [] \<le> mx \<Longrightarrow> c (take (largest_fit c mx ms n) ms) \<le> mx"
  by (induction n) auto

lemma largest_fit_all: "c (take n ms) \<le> mx \<Longrightarrow> largest_fit c mx ms n = n"
  by (cases n) auto

lemma window_eq:
  "rev (first_max_tokens c mx (rev rest)) =
     dropWhile (\<lambda>m. \<not> is_human m)
       (drop (length rest - largest_fit c mx (rev rest) (length rest)) rest)"
  by (simp add: first_max_tokens_def rev_take)

lemma window_props:
  fixes rest mx
  defines "w \<equiv> rev (first_max_tokens count_tokens_approximately mx (rev rest))"
  shows "\<exists>dropped. rest = dropped @ w"
    and "w = [] \<or> is_human (hd w)"
    and "count_tokens_approximately w \<le> mx"
    and "count_tokens_approximately rest \<le> mx \<Longrightarrow> rest = [] \<or> is_human (hd rest) \<Longrightarrow> w = rest"
proof -
  let ?c = count_tokens_approximately
  let ?k = "largest_fit ?c mx (rev rest) (length rest)"
  let ?tail = "drop (length rest - ?k) rest"
  have w: "w = dropWhile (\<lambda>m. \<not> is_human m) ?tail"
    unfolding w_def by (rule window_eq)
  have "rest = (take (length rest - ?k) rest @ takeWhile (\<lambda>m. \<not> is_human m) ?tail) @ w"
    unfolding w by simp
  then show "\<exists>dropped. rest = dropped @ w" by blast
  show "w = [] \<or> is_human (hd w)"
    unfolding w using hd_dropWhile [of "\<lambda>m. \<not> is_human m" ?tail] by auto
  have "?c [] \<le> mx" by (simp add: count_tokens_approximately_def)
  then have "?c (take ?k (rev rest)) \<le> mx"
    using largest_fit_fits [of ?c mx "rev rest" "length rest"] by simp
  moreover have "?c ?tail = ?c (take ?k (rev rest))"
    using count_rev [of "take ?k (rev rest)"] by (simp add: rev_take)
  moreover have "?c w \<le> ?c ?tail" unfolding w by (rule count_dropWhile)
  ultimately show "?c w \<le> mx" by simp
  show "w = rest" if fit: "?c rest \<le> mx" and st: "rest = [] \<or> is_human (hd rest)"
  proof -
    have "?c (take (length rest) (rev rest)) \<le> mx" using fit by (simp add: count_rev)
    then have "?k = length rest" by (rule largest_fit_all)
    then have "w = dropWhile (\<lambda>m. \<not> is_human m) rest" unfolding w by simp
    with st show ?thesis by (cases rest) auto
  qed
qed

text \<open>
  Claim C6, as the code has it. \<open>chat\<close> hands the model the history trimmed with a budget
  of 150000 approximate tokens. The trimmed history is the system message at index 0,
  when there is one, followed by a tail of the remaining messages: messages are dropped
  from the old end only, the tail is empty or starts on a human message, it fits what
  the system message leaves of the budget, and nothing is dropped when the remaining
  messages fit and start on a human message. A system message elsewhere in the history
  is treated like any other message.
\<close>

theorem trim_messages_window:
  "(\<exists>lead dropped w.
      ms = lead @ dropped @ w \<and>
      trim_messages count_tokens_approximately max_tokens ms = lead @ w \<and>
      lead = (case ms of [] \<Rightarrow> [] | m # rest \<Rightarrow> if is_system m then [m] else []) \<and>
      (w = [] \<or> is_human (hd w)) \<and>
      count_tokens_approximately w \<le> max_tokens - count_tokens_approximately lead \<and>
      (count_tokens_approximately (dropped @ w) \<le> max_tokens - count_tokens_approximately lead \<and>
       (dropped @ w = [] \<or> is_human (hd (dropped @ w))) \<longrightarrow> dropped = [])) \<and>
   (chat svc query cid stamp1 stamp2 self = (Inr response, self') \<longrightarrow>
      (\<exists>h. get_conversation_history cid (db self) = Inr h \<and>
           (if use_rag self
            then fst (generate svc query
                        (trim_messages count_tokens_approximately 150000 h) (bot_rag self))
            else llm svc ([SystemMessage assistant_prompt] @
                          trim_messages count_tokens_approximately 150000 h @
                          [HumanMessage query])) = Inr response))"
proof
  let ?c = count_tokens_approximately
  define lead where "lead = (case ms of [] \<Rightarrow> [] | m # rest \<Rightarrow> if is_system m then [m] else [])"
  define rest where "rest = drop (length lead) ms"
  define w where "w = rev (first_max_tokens ?c (max_tokens - ?c lead) (rev rest))"
  have ms: "ms = lead @ rest"
    by (cases ms) (auto simp: lead_def rest_def)
  have tr: "trim_messages ?c max_tokens ms = lead @ w"
  proof (cases ms)
    case Nil
    then show ?thesis
      by (simp add: trim_messages_def lead_def rest_def w_def first_max_tokens_def)
  next
    case (Cons m tl)
    then show ?thesis
      by (auto simp: trim_messages_def lead_def rest_def w_def count_tokens_approximately_def)
  qed
  from window_props(1) [of rest "max_tokens - ?c lead"] obtain dropped where
    d: "rest = dropped @ w" unfolding w_def by blast
  have hd: "w = [] \<or> is_human (hd w)"
    unfolding w_def by (rule window_props(2))
  have bound: "?c w \<le> max_tokens - ?c lead"
    unfolding w_def by (rule window_props(3))
  have full: "dropped = []"
    if "?c (dropped @ w) \<le> max_tokens - ?c lead \<and>
        (dropped @ w = [] \<or> is_human (hd (dropped @ w)))"
  proof -
    from that d have "?c rest \<le> max_tokens - ?c lead" "rest = [] \<or> is_human (hd rest)"
      by simp_all
    then have "w = rest" unfolding w_def by (rule window_props(4))
    with d show ?thesis by simp
  qed
  from ms d tr hd bound full
  show "\<exists>lead dropped w.
      ms = lead @ dropped @ w \<and>
      trim_messages ?c max_tokens ms = lead @ w \<and>
      lead = (case ms of [] \<Rightarrow> [] | m # rest \<Rightarrow> if is_system m then [m] else []) \<and>
      (w = [] \<or> is_human (hd w)) \<and>
      ?c w \<le> max_tokens - ?c lead \<and>
      (?c (dropped @ w) \<le> max_tokens - ?c lead \<and>
       (dropped @ w = [] \<or> is_human (hd (dropped @ w))) \<longrightarrow> dropped = [])"
    unfolding lead_def [symmetric] by blast
next
  show "chat svc query cid stamp1 stamp2 self = (Inr response, self') \<longrightarrow>
      (\<exists>h. get_conversation_history cid (db self) = Inr h \<and>
           (if use_rag self
            then fst (generate svc query
                        (trim_messages count_tokens_approximately 150000 h) (bot_rag self))
            else llm svc ([SystemMessage assistant_prompt] @
                          trim_messages count_tokens_approximately 150000 h @
                          [HumanMessage query])) = Inr response)"
    by (auto simp: chat_def Let_def split: sum.splits prod.splits if_splits)
qed


lemma is_system_simps [simp]:
  "is_system (SystemMessage c)" "\<not> is_system (HumanMessage c)" "\<not> is_system (AIMessage c)"
  by (simp_all add: is_system_def)

lemma is_human_simps [simp]:
  "is_human (HumanMessage c)" "\<not> is_human (SystemMessage c)" "\<not> is_human (AIMessage c)"
  by (simp_all add: is_human_def)

theorem trim_messages_window_witness:
  "trim_messages count_tokens_approximately 150000
     [HumanMessage ''hi'', AIMessage ''hello''] = [HumanMessage ''hi'', AIMessage ''hello''] \<and>
   llm example_services
     ([SystemMessage assistant_prompt] @
      trim_messages count_tokens_approximately 150000 [HumanMessage ''hi'', AIMessage ''hello''] @
      [HumanMessage ''What?'']) = Inr ''answer''"
proof -
  let ?ms = "[HumanMessage ''hi'', AIMessage ''hello'']"
  let ?c = count_tokens_approximately
  let ?run = "chat example_services ''What?'' ''c1'' (''u1'', 10) (''u2'', 11) example_bot"
  have hist: "get_conversation_history ''c1'' (db example_bot) = Inr ?ms"
    by (simp add: get_conversation_history_def example_bot_def example_tables_def
          conversation_messages_def List.map_filter_def to_message_def)
  have "fst ?run = Inr ''answer''"
    by (simp add: chat_def get_conversation_history_def conversation_messages_def
          List.map_filter_def to_message_def Let_def example_bot_def example_services_def
          save_message_def example_tables_def conversation_known_def)
  then have run: "?run = (Inr ''answer'', snd ?run)" by (cases ?run) simp
  have norag: "\<not> use_rag example_bot" by (simp add: example_bot_def)
  note T = trim_messages_window [of ?ms 150000 example_services "''What?''" "''c1''"
      "(''u1'', 10)" "(''u2'', 11)" example_bot "''answer''" "snd ?run"]
  from T have "\<exists>lead dropped w.
      ?ms = lead @ dropped @ w \<and>
      trim_messages ?c 150000 ?ms = lead @ w \<and>
      lead = (case ?ms of [] \<Rightarrow> [] | m # rest \<Rightarrow> if is_system m then [m] else []) \<and>
      (w = [] \<or> is_human (hd w)) \<and>
      ?c w \<le> 150000 - ?c lead \<and>
      (?c (dropped @ w) \<le> 150000 - ?c lead \<and>
       (dropped @ w = [] \<or> is_human (hd (dropped @ w))) \<longrightarrow> dropped = [])"
    by (rule conjunct1)
  then obtain lead dropped w where
    a: "?ms = lead @ dropped @ w" "trim_messages ?c 150000 ?ms = lead @ w"
       "lead = (case ?ms of [] \<Rightarrow> [] | m # rest \<Rightarrow> if is_system m then [m] else [])"
       "?c (dropped @ w) \<le> 150000 - ?c lead \<and>
         (dropped @ w = [] \<or> is_human (hd (dropped @ w))) \<longrightarrow> dropped = []"
    by blast
  from a(3) have lead: "lead = []" by simp
  from a(1) lead have dw: "dropped @ w = ?ms" by simp
  have "?c ?ms \<le> 150000 - ?c []"
    by (simp add: count_tokens_approximately_def message_chars_def)
  with a(4) dw lead have "dropped = []" by simp
  with a(2) lead dw have first: "trim_messages ?c 150000 ?ms = ?ms" by simp
  from T have "?run = (Inr ''answer'', snd ?run) \<longrightarrow>
      (\<exists>h. get_conversation_history ''c1'' (db example_bot) = Inr h \<and>
           (if use_rag example_bot
            then fst (generate example_services ''What?''
                        (trim_messages ?c 150000 h) (bot_rag example_bot))
            else llm example_services ([SystemMessage assistant_prompt] @
                          trim_messages ?c 150000 h @ [HumanMessage ''What?''])) = Inr ''answer'')"
    by (rule conjunct2)
  with run hist norag have "llm example_services
     ([SystemMessage assistant_prompt] @ trim_messages ?c 150000 ?ms @ [HumanMessage ''What?''])
     = Inr ''answer''"
    by auto
  with first show ?thesis by simp
qed

text \<open>
  A second system message, well within the budget, is dropped because it stands before
  the first human message of the tail.
\<close>

theorem trim_messages_counterexample:
  "trim_messages count_tokens_approximately 150000
     [SystemMessage ''You are terse.'', SystemMessage ''Answer in French.'', HumanMessage ''Hello'']
   = [SystemMessage ''You are terse.'', HumanMessage ''Hello'']"
  by (simp add: trim_messages_def first_max_tokens_def count_tokens_approximately_def
        message_chars_def)

section \<open>Properties of chunking\<close>















end
